theory Spec2Isabelle
  imports Main
begin

section \<open>The buffered socket layer (io.c)\<close>

text \<open>
  The C \<open>int\<close> fields of \<open>buf_t\<close> and \<open>pipe_t\<close> are modelled by HOL integers:
  every result below is about runs in which no signed addition overflows (signed
  overflow has no defined result in C). \<open>x >> 1\<close> on an \<open>int\<close> is \<open>x div 2\<close>.
  A byte is a \<open>char\<close>; the region \<open>buf\<close> points to is the list of its bytes.
  \<open>BUFSIZE\<close> is a macro of io.h, which is not among the sources: it is the first
  parameter \<open>B\<close> of every function that mentions it.
\<close>

record buf_t =
  buf :: "char list"
  bufsize :: int
  datasize :: int
  pos :: int

text \<open>\<open>full\<close>: "The buffer is full and need to be expand?"\<close>

definition full :: "int \<Rightarrow> buf_t \<Rightarrow> bool" where
  "full B bp = (datasize bp + B div 2 > bufsize bp)"

text \<open>\<open>empty\<close>: "The buffer is empty and should be shrink?"\<close>

definition empty :: "int \<Rightarrow> buf_t \<Rightarrow> bool" where
  "empty B bp = (let freespace = bufsize bp - datasize bp + pos bp in freespace > B)"

text \<open>
  \<open>memmove(dst + 0, dst + p, n)\<close> inside one region, and \<open>realloc\<close> to \<open>n\<close> bytes:
  the first \<open>min\<close> of the old and new size bytes are kept; bytes gained are
  indeterminate in C and are written as NUL here (no function reads them before
  they are overwritten). \<open>realloc\<close> is taken to succeed, as the source does.
\<close>

definition memmove_down :: "char list \<Rightarrow> nat \<Rightarrow> nat \<Rightarrow> char list" where
  "memmove_down m p n = take n (drop p m) @ drop n m"

definition realloc :: "char list \<Rightarrow> nat \<Rightarrow> char list" where
  "realloc m n = take n m @ replicate (n - length m) (CHR 0x00)"

definition io_shrink :: "buf_t \<Rightarrow> buf_t" where
  "io_shrink bp =
     (let freespace = bufsize bp - datasize bp + pos bp;
          ds = datasize bp - pos bp;
          m = memmove_down (buf bp) (nat (pos bp)) (nat ds);
          bs = bufsize bp - freespace div 2
      in \<lparr>buf = realloc m (nat bs), bufsize = bs, datasize = ds, pos = 0\<rparr>)"

subsection \<open>The receiving socket\<close>

text \<open>
  \<open>recv\<close> is a system call. The socket is the list of what the coming calls meet:
  bytes that have arrived (one \<open>Data\<close> per segment, so a call may return fewer bytes
  than are asked for), the peer's close, an empty queue (\<open>EAGAIN\<close>/\<open>EWOULDBLOCK\<close>) or a
  hard error. An exhausted list is an empty queue. The result is the return value,
  whether \<open>errno\<close> is \<open>EAGAIN\<close>/\<open>EWOULDBLOCK\<close>, the bytes stored and the socket left.
  The length argument is a \<open>size_t\<close>: the \<open>int\<close> the caller computes is converted,
  a negative one modulo \<open>2 ^ 64\<close> (\<open>size_t\<close> below gives the converted value, as an
  integer).
\<close>

datatype sock_ev = Data "char list" | Eof | Again | Fail

definition size_t :: "int \<Rightarrow> int" where
  "size_t x = (if 0 \<le> x then x else x mod 2 ^ 64)"

fun recv :: "sock_ev list \<Rightarrow> int \<Rightarrow> int \<times> bool \<times> char list \<times> sock_ev list" where
  "recv [] len = (-1, True, [], [])"
| "recv (Again # s) len = (-1, True, [], s)"
| "recv (Fail # s) len = (-1, False, [], s)"
| "recv (Eof # s) len = (0, False, [], Eof # s)"
| "recv (Data bs # s) len =
     (let n = min len (int (length bs))
      in (n, False, take (nat n) bs,
          if n < int (length bs) then Data (drop (nat n) bs) # s else s))"

text \<open>Storing \<open>bs\<close> at offset \<open>at\<close> of a region.\<close>

definition store :: "char list \<Rightarrow> nat \<Rightarrow> char list \<Rightarrow> char list" where
  "store m at bs = take at m @ bs @ drop (at + length bs) m"

fun ev_size :: "sock_ev \<Rightarrow> nat" where
  "ev_size (Data bs) = Suc (length bs)"
| "ev_size _ = 1"

text \<open>
  The \<open>while\<close> loop of \<open>io_recv\<close>. It returns the last \<open>nbytes\<close> (which is not
  positive), the \<open>errno\<close> test, the socket and the buffer.
\<close>

function io_recv_loop :: "int \<Rightarrow> sock_ev list \<Rightarrow> buf_t \<Rightarrow> int \<times> bool \<times> sock_ev list \<times> buf_t" where
  "io_recv_loop B s bp =
     (case recv s (size_t (bufsize bp - datasize bp - 1)) of
        (nbytes, again, bs, s') \<Rightarrow>
          if nbytes > 0 then
            let bp1 = bp\<lparr>buf := store (buf bp) (nat (datasize bp)) bs,
                        datasize := datasize bp + nbytes\<rparr>;
                bp2 = (if full B bp1
                       then bp1\<lparr>buf := realloc (buf bp1) (nat (bufsize bp1 + bufsize bp1 div 2)),
                                bufsize := bufsize bp1 + bufsize bp1 div 2\<rparr>
                       else bp1)
            in io_recv_loop B s' bp2
          else (nbytes, again, s', bp))"
  by pat_completeness auto
termination
proof (relation "measure (\<lambda>(B, s, bp). sum_list (map ev_size s))")
  show "wf (measure (\<lambda>(B, s, bp). sum_list (map ev_size s)))" by simp
next
  fix B nbytes :: int and s s' :: "sock_ev list" and bp bp1 bp2 :: buf_t and again :: bool
    and bs :: "char list" and y :: "bool \<times> char list \<times> sock_ev list"
    and z :: "char list \<times> sock_ev list"
  assume r: "(nbytes, y) = recv s (size_t (bufsize bp - datasize bp - 1))"
    "(again, z) = y" "(bs, s') = z" and pos: "0 < nbytes"
  have "sum_list (map ev_size s') < sum_list (map ev_size s)"
  proof (cases s)
    case Nil
    with r pos show ?thesis by simp
  next
    case (Cons e t)
    with r pos show ?thesis
      by (cases e) (auto simp: Let_def min_def split: if_splits)
  qed
  then show "((B, s', bp2), (B, s, bp)) \<in> measure (\<lambda>(B, s, bp). sum_list (map ev_size s))"
    by simp
qed

declare io_recv_loop.simps [simp del]

definition io_recv :: "int \<Rightarrow> sock_ev list \<Rightarrow> buf_t \<Rightarrow> int \<times> sock_ev list \<times> buf_t" where
  "io_recv B s bp =
     (case io_recv_loop B s bp of
        (nbytes, again, s', bp') \<Rightarrow>
          if nbytes = 0 then (0, s', bp')
          else if nbytes < 0 \<and> \<not> again then (nbytes, s', bp')
          else (datasize bp', s', bp'))"

subsection \<open>The sending socket\<close>

text \<open>
  \<open>send\<close> is a system call. The destination is the list of what the coming calls
  meet: room for at most \<open>k\<close> bytes, a full queue (\<open>EAGAIN\<close>/\<open>EWOULDBLOCK\<close>) or a hard
  error; an exhausted list is a full queue. The result is the return value, the
  \<open>errno\<close> test and the destination left.
\<close>

datatype send_ev = Accept nat | SAgain | SFail

fun send :: "send_ev list \<Rightarrow> int \<Rightarrow> int \<times> bool \<times> send_ev list" where
  "send [] len = (-1, True, [])"
| "send (SAgain # s) len = (-1, True, s)"
| "send (SFail # s) len = (-1, False, s)"
| "send (Accept k # s) len = (min (int k) len, False, s)"

text \<open>
  The \<open>while\<close> loop of \<open>io_send\<close>. The first component tells whether the loop was
  left by \<open>return -1\<close>; the second is \<open>bytes_sent\<close>.
\<close>

function io_send_loop :: "send_ev list \<Rightarrow> buf_t \<Rightarrow> int \<Rightarrow> bool \<times> int \<times> send_ev list \<times> buf_t" where
  "io_send_loop s bp bytes_sent =
     (if pos bp < datasize bp then
        (case send s (size_t (datasize bp - pos bp)) of
           (nbytes, again, s') \<Rightarrow>
             if nbytes < 0 then
               (if again then (False, bytes_sent, s', bp) else (True, bytes_sent, s', bp))
             else io_send_loop s' (bp\<lparr>pos := pos bp + nbytes\<rparr>) (bytes_sent + nbytes))
      else (False, bytes_sent, s, bp))"
  by pat_completeness auto
termination
proof (relation "measure (\<lambda>(s, bp, n). length s)")
  show "wf (measure (\<lambda>(s :: send_ev list, bp :: buf_t, n :: int). length s))" by simp
next
  fix s :: "send_ev list" and bp :: buf_t and bytes_sent nbytes :: int
    and x y :: "bool \<times> send_ev list" and again :: bool and s' :: "send_ev list"
  assume r: "(nbytes, y) = send s (size_t (datasize bp - pos bp))" "(again, s') = y"
    and nn: "\<not> nbytes < 0"
  have "length s' < length s"
  proof (cases s)
    case Nil
    with r nn show ?thesis by simp
  next
    case (Cons e t)
    with r nn show ?thesis by (cases e) auto
  qed
  then show "((s', bp\<lparr>pos := pos bp + nbytes\<rparr>, bytes_sent + nbytes), (s, bp, bytes_sent))
      \<in> measure (\<lambda>(s, bp, n). length s)"
    by simp
qed

declare io_send_loop.simps [simp del]

definition io_send :: "int \<Rightarrow> send_ev list \<Rightarrow> buf_t \<Rightarrow> int \<times> send_ev list \<times> buf_t" where
  "io_send B s bp =
     (case io_send_loop s bp 0 of
        (failed, bytes_sent, s', bp') \<Rightarrow>
          if failed then (-1, s', bp')
          else (bytes_sent, s', if empty B bp' then io_shrink bp' else bp'))"

text \<open>\<open>init_buf\<close>; the bytes of a fresh region are indeterminate, written as NUL.\<close>

definition init_buf :: "int \<Rightarrow> buf_t" where
  "init_buf B = \<lparr>buf = replicate (nat B) (CHR 0x00), bufsize = B, datasize = 0, pos = 0\<rparr>"

subsection \<open>The file-to-socket pipe\<close>

text \<open>
  \<open>pipe_t\<close>; its fields \<open>buf\<close> and \<open>datasize\<close> are written \<open>pipe_buf\<close> and
  \<open>pipe_datasize\<close>, since \<open>buf_t\<close> has fields of these names.
\<close>

record pipe_t =
  from_fd :: int
  pipe_buf :: "char list"
  offset :: int
  pipe_datasize :: int

text \<open>
  The source file is the list of what the coming \<open>read\<close> calls meet: bytes of the
  file, or a failure; an exhausted list is the end of the file.
\<close>

datatype file_ev = Chunk "char list" | RdFail

fun read :: "file_ev list \<Rightarrow> int \<Rightarrow> int \<times> char list \<times> file_ev list" where
  "read [] n = (0, [], [])"
| "read (RdFail # f) n = (-1, [], f)"
| "read (Chunk bs # f) n =
     (let k = min n (int (length bs))
      in (k, take (nat k) bs, if k < int (length bs) then Chunk (drop (nat k) bs) # f else f))"

text \<open>
  What \<open>io_pipe\<close> acts on besides the pipe: the file behind \<open>from_fd\<close>, the
  destination socket, the descriptor set \<open>context.read_fds_cpy\<close> of io.c, and the
  system calls made so far, in order.
\<close>

datatype syscall = SysRead int | SysSend int | SysClose int

record world =
  src_file :: "file_ev list"
  dst_sock :: "send_ev list"
  read_fds_cpy :: "int set"
  calls :: "syscall list"

definition remove_read_fd :: "int \<Rightarrow> world \<Rightarrow> world" where
  "remove_read_fd fd w = w\<lparr>read_fds_cpy := read_fds_cpy w - {fd}\<rparr>"

definition close :: "int \<Rightarrow> world \<Rightarrow> world" where
  "close fd w = w\<lparr>calls := calls w @ [SysClose fd]\<rparr>"

text \<open>The tail of \<open>io_pipe\<close>, from the \<open>send\<close> call on.\<close>

definition io_pipe_send :: "pipe_t \<Rightarrow> world \<Rightarrow> int \<times> pipe_t \<times> world" where
  "io_pipe_send pp w =
     (case send (dst_sock w) (size_t (pipe_datasize pp - offset pp)) of
        (n, again, d') \<Rightarrow>
          let w1 = w\<lparr>dst_sock := d', calls := calls w @ [SysSend n]\<rparr>
          in if n = -1 then (-1, pp, remove_read_fd (from_fd pp) (close (from_fd pp) w1))
             else (0, pp\<lparr>offset := offset pp + n\<rparr>, w1))"

definition io_pipe :: "int \<Rightarrow> pipe_t \<Rightarrow> world \<Rightarrow> int \<times> pipe_t \<times> world" where
  "io_pipe B pp w =
     (if pipe_datasize pp \<le> offset pp then
        (case read (src_file w) (size_t B) of
           (r, bs, f') \<Rightarrow>
             let pp1 = pp\<lparr>pipe_buf := store (pipe_buf pp) 0 bs, pipe_datasize := r\<rparr>;
                 w1 = w\<lparr>src_file := f', calls := calls w @ [SysRead r]\<rparr>
             in if pipe_datasize pp1 = -1 then
                  (-1, pp1, remove_read_fd (from_fd pp1) (close (from_fd pp1) w1))
                else if pipe_datasize pp1 = 0 then
                  (1, pp1, remove_read_fd (from_fd pp1) (close (from_fd pp1) w1))
                else io_pipe_send (pp1\<lparr>offset := 0\<rparr>) w1)
      else io_pipe_send pp w)"

definition init_pipe :: "int \<Rightarrow> pipe_t" where
  "init_pipe B = \<lparr>from_fd = 0, pipe_buf = replicate (nat B) (CHR 0x00), offset = 0,
                  pipe_datasize = 0\<rparr>"

text \<open>
  The caller of \<open>io_pipe\<close> (the event loop, which is not among the sources) calls it
  again while it returns 0. \<open>pipe_run\<close> is this repetition, bounded by a number of
  steps: it yields the return values in order with the final pipe and world, or
  \<open>None\<close> when the steps run out before a non-zero return.
\<close>

fun pipe_run :: "nat \<Rightarrow> int \<Rightarrow> pipe_t \<Rightarrow> world \<Rightarrow> (int list \<times> pipe_t \<times> world) option" where
  "pipe_run 0 B pp w = None"
| "pipe_run (Suc k) B pp w =
     (case io_pipe B pp w of
        (ret, pp', w') \<Rightarrow>
          if ret = 0 then
            (case pipe_run k B pp' w' of
               None \<Rightarrow> None
             | Some (rets, pp'', w'') \<Rightarrow> Some (ret # rets, pp'', w''))
          else Some ([ret], pp', w'))"

subsection \<open>Notions the properties are stated with\<close>

text \<open>The capacity invariant of a buffer, and its unread bytes \<open>[pos, datasize)\<close>.\<close>

definition buf_inv :: "buf_t \<Rightarrow> bool" where
  "buf_inv bp = (0 \<le> pos bp \<and> pos bp \<le> datasize bp \<and> datasize bp \<le> bufsize bp)"

definition unread :: "buf_t \<Rightarrow> char list" where
  "unread bp = take (nat (datasize bp - pos bp)) (drop (nat (pos bp)) (buf bp))"

text \<open>The results of the \<open>read\<close> calls and the descriptors closed, among system calls.\<close>

fun reads_of :: "syscall list \<Rightarrow> int list" where
  "reads_of [] = []"
| "reads_of (SysRead r # cs) = r # reads_of cs"
| "reads_of (c # cs) = reads_of cs"

fun closes_of :: "syscall list \<Rightarrow> int list" where
  "closes_of [] = []"
| "closes_of (SysClose fd # cs) = fd # closes_of cs"
| "closes_of (c # cs) = closes_of cs"

fun sends_of :: "syscall list \<Rightarrow> int list" where
  "sends_of [] = []"
| "sends_of (SysSend n # cs) = n # sends_of cs"
| "sends_of (c # cs) = sends_of cs"

text \<open>
  The sizes of the reads that stream \<open>n\<close> bytes through a scratch buffer of \<open>c\<close>
  bytes when every read returns as much as it can.
\<close>

function chunks :: "nat \<Rightarrow> nat \<Rightarrow> nat list" where
  "chunks c n = (if n = 0 \<or> c = 0 then [] else min c n # chunks c (n - min c n))"
  by pat_completeness auto
termination
  by (relation "measure snd") auto

declare chunks.simps [simp del]

section \<open>The request parser (http_parser.c)\<close>

text \<open>
  A C string is the list of its characters before the terminating NUL: the list
  holds no NUL, and \<open>s[i] == '\0'\<close> exactly when \<open>i\<close> is its length.

  \<open>http_request_t\<close> and \<open>http_client_t\<close> are declared in http_client.h, which is not
  among the sources; the records below have the fields the sources use. The header
  list (\<open>http_header_t\<close> nodes linked by \<open>next\<close>) is a list of key/value pairs, its
  head first. \<open>body\<close> is a pointer into the input buffer: the offset it points to, or
  \<open>None\<close> while it is not set.
\<close>

record http_request_t =
  "method" :: string
  uri :: string
  headers :: "(string \<times> string) list"
  content_len :: int
  body :: "int option"

text \<open>
  Modelled from the spec: the status code macros of config.h (not among the
  sources), with the values the spec gives them.
\<close>

definition OK :: int where "OK = 200"
definition BAD_REQUEST :: int where "BAD_REQUEST = 400"
definition NOT_FOUND :: int where "NOT_FOUND = 404"
definition METHOD_NOT_ALLOWED :: int where "METHOD_NOT_ALLOWED = 405"
definition LENGTH_REQUIRED :: int where "LENGTH_REQUIRED = 411"
definition INTERNAL_SERVER_ERROR :: int where "INTERNAL_SERVER_ERROR = 500"
definition NOT_IMPLEMENTED :: int where "NOT_IMPLEMENTED = 501"
definition HTTP_VERSION_NOT_SUPPORTED :: int where "HTTP_VERSION_NOT_SUPPORTED = 505"

text \<open>
  Modelled from the spec: \<open>strcicmp\<close> (not among the sources) compares two strings
  "case-insensitively"; it returns 0 exactly when they are equal up to the case of
  ASCII letters. The sources only test its result against 0.
\<close>

definition lower :: "char \<Rightarrow> char" where
  "lower c = (let n = (of_char c :: nat) in if 65 \<le> n \<and> n \<le> 90 then char_of (n + 32) else c)"

definition strcicmp :: "string \<Rightarrow> string \<Rightarrow> int" where
  "strcicmp a b = (if map lower a = map lower b then 0 else 1)"

subsection \<open>\<open>parse_request_line\<close>\<close>

text \<open>
  \<open>sscanf(line, "%s %s %s", ...)\<close>: each \<open>%s\<close> skips white space (\<open>isspace\<close>: space,
  \<open>\t\<close>, \<open>\n\<close>, \<open>\v\<close>, \<open>\f\<close>, \<open>\r\<close>) and then takes the characters up to the next white
  space or the end. The result is the number of words stored, or \<open>EOF\<close> (\<open>-1\<close>) when
  the input ends before the first one.
\<close>

definition isspace :: "char \<Rightarrow> bool" where
  "isspace c = (c = CHR '' '' \<or> c = CHR 0x09 \<or> c = CHR 0x0A \<or> c = CHR 0x0B \<or>
                c = CHR 0x0C \<or> c = CHR 0x0D)"

fun skip_ws :: "string \<Rightarrow> string" where
  "skip_ws [] = []"
| "skip_ws (c # cs) = (if isspace c then skip_ws cs else c # cs)"

fun scan_word :: "string \<Rightarrow> string \<times> string" where
  "scan_word [] = ([], [])"
| "scan_word (c # cs) =
     (if isspace c then ([], c # cs)
      else (case scan_word cs of (w, r) \<Rightarrow> (c # w, r)))"

definition scan_s :: "string \<Rightarrow> (string \<times> string) option" where
  "scan_s s = (case skip_ws s of [] \<Rightarrow> None | t \<Rightarrow> Some (scan_word t))"

definition sscanf3 :: "string \<Rightarrow> int \<times> string list" where
  "sscanf3 line =
     (case scan_s line of
        None \<Rightarrow> (-1, [])
      | Some (a, r1) \<Rightarrow>
          (case scan_s r1 of
             None \<Rightarrow> (1, [a])
           | Some (b, r2) \<Rightarrow>
               (case scan_s r2 of
                  None \<Rightarrow> (2, [a, b])
                | Some (c, r3) \<Rightarrow> (3, [a, b, c]))))"

text \<open>
  \<open>parse_request_line\<close>. \<open>http_version\<close>, a variable of the configuration, is the
  first parameter. \<open>sscanf\<close> stores the first word in \<open>req->method\<close>, the second in
  \<open>req->uri\<close> and the third in the local array \<open>version\<close>, as far as there are words.
\<close>

definition parse_request_line :: "string \<Rightarrow> http_request_t \<Rightarrow> string \<Rightarrow> int \<times> http_request_t" where
  "parse_request_line http_version req line =
     (case sscanf3 line of
        (n, ws) \<Rightarrow>
          let req1 = (if 1 \<le> n then req\<lparr>method := ws ! 0\<rparr> else req);
              req2 = (if 2 \<le> n then req1\<lparr>uri := ws ! 1\<rparr> else req1)
          in if n < 3 then (BAD_REQUEST, req2)
             else let version = ws ! 2
               in if strcicmp (method req2) ''GET'' \<noteq> 0 \<and>
                     strcicmp (method req2) ''HEAD'' \<noteq> 0 \<and>
                     strcicmp (method req2) ''POST'' \<noteq> 0
                  then (METHOD_NOT_ALLOWED, req2)
                  else if strcicmp version http_version \<noteq> 0
                  then (HTTP_VERSION_NOT_SUPPORTED, req2)
                  else (0, req2))"

subsection \<open>\<open>copy_trimmed_string\<close> and \<open>parse_header\<close>\<close>

text \<open>
  \<open>head\<close> and \<open>tail\<close> point into one string \<open>s\<close>; they are the indices \<open>h\<close> and \<open>t\<close>.
  \<open>trim_loop\<close> is the \<open>while\<close> loop of \<open>copy_trimmed_string\<close>; the copy made by
  \<open>malloc\<close>, \<open>strncpy\<close> and the final NUL is the string of the characters from
  \<open>head\<close> to \<open>tail\<close>, and \<open>None\<close> is \<open>NULL\<close>.
\<close>

function trim_loop :: "string \<Rightarrow> int \<Rightarrow> int \<Rightarrow> int \<times> int" where
  "trim_loop s h t =
     (if h \<le> t then
        (if s ! nat h \<noteq> CHR '' '' \<and> s ! nat t \<noteq> CHR '' '' then (h, t)
         else trim_loop s (if s ! nat h = CHR '' '' then h + 1 else h)
                          (if s ! nat t = CHR '' '' then t - 1 else t))
      else (h, t))"
  by pat_completeness auto
termination
  by (relation "measure (\<lambda>(s, h, t). nat (t - h + 1))") auto

declare trim_loop.simps [simp del]

definition copy_trimmed_string :: "string \<Rightarrow> int \<Rightarrow> int \<Rightarrow> string option" where
  "copy_trimmed_string s head tail =
     (case trim_loop s head tail of
        (h, t) \<Rightarrow> if h > t then None else Some (take (nat (t - h + 1)) (drop (nat h) s)))"

text \<open>\<open>strchr\<close>: the index of the first occurrence, \<open>None\<close> for \<open>NULL\<close>.\<close>

fun strchr :: "string \<Rightarrow> char \<Rightarrow> nat option" where
  "strchr [] c = None"
| "strchr (x # xs) c = (if x = c then Some 0 else map_option Suc (strchr xs c))"

text \<open>
  \<open>parse_header\<close>. \<open>val\<close> points at index \<open>k\<close> of \<open>line\<close>; \<open>val[1] == '\0'\<close> says that
  \<open>k + 1\<close> is the length of the line. The new header becomes the head of the list.
\<close>

definition parse_header :: "http_request_t \<Rightarrow> string \<Rightarrow> int \<times> http_request_t" where
  "parse_header req line =
     (case strchr line (CHR '':'') of
        None \<Rightarrow> (-1, req)
      | Some k \<Rightarrow>
          if k + 1 = length line \<or> k = 0 then (-1, req)
          else (case copy_trimmed_string line 0 (int k - 1) of
                  None \<Rightarrow> (-1, req)
                | Some key \<Rightarrow>
                    (case copy_trimmed_string line (int k + 1) (int (length line) - 1) of
                       None \<Rightarrow> (-1, req)
                     | Some v \<Rightarrow> (0, req\<lparr>headers := (key, v) # headers req\<rparr>))))"

text \<open>
  Modelled from the spec: \<open>get_request_header\<close> (http_client.c, not among the
  sources). The spec defines lookup as the first match in the header list, on
  case-sensitive keys; \<open>None\<close> is \<open>NULL\<close>.
\<close>

fun get_request_header :: "http_request_t \<Rightarrow> string \<Rightarrow> string option" where
  "get_request_header req key = map_of (headers req) key"

subsection \<open>Notions the parser's properties are stated with\<close>

text \<open>
  The white-space-separated tokens of a line, and a string without its leading
  and trailing ASCII spaces.
\<close>

function tokens :: "string \<Rightarrow> string list" where
  "tokens s =
     (case dropWhile isspace s of
        [] \<Rightarrow> []
      | t \<Rightarrow> takeWhile (\<lambda>c. \<not> isspace c) t # tokens (dropWhile (\<lambda>c. \<not> isspace c) t))"
  by pat_completeness auto
termination
proof (relation "measure length")
  show "wf (measure (length :: string \<Rightarrow> nat))" by simp
next
  fix s t :: string and c :: char and cs :: string
  assume "dropWhile isspace s = c # cs"
  then have "\<not> isspace c"
    by (metis dropWhile_eq_Cons_conv)
  then have "length (dropWhile (\<lambda>c. \<not> isspace c) (c # cs)) \<le> length cs"
    by (simp add: length_dropWhile_le)
  moreover have "length (c # cs) \<le> length s"
    using \<open>dropWhile isspace s = c # cs\<close> by (metis length_dropWhile_le)
  ultimately show "(dropWhile (\<lambda>c. \<not> isspace c) (c # cs), s) \<in> measure length"
    by simp
qed

declare tokens.simps [simp del]

definition trim :: "string \<Rightarrow> string" where
  "trim s = rev (dropWhile (\<lambda>c. c = CHR '' '') (rev (dropWhile (\<lambda>c. c = CHR '' '') s)))"

text \<open>Parsing header lines one after the other, as long as they parse.\<close>

fun parse_headers :: "http_request_t \<Rightarrow> string list \<Rightarrow> http_request_t option" where
  "parse_headers req [] = Some req"
| "parse_headers req (l # ls) =
     (case parse_header req l of
        (ret, req') \<Rightarrow> if ret = 0 then parse_headers req' ls else None)"

text \<open>The key and the value a header line stands for.\<close>

definition header_key :: "string \<Rightarrow> string" where
  "header_key line = trim (takeWhile (\<lambda>c. c \<noteq> CHR '':'') line)"

definition header_val :: "string \<Rightarrow> string" where
  "header_val line = trim (tl (dropWhile (\<lambda>c. c \<noteq> CHR '':'') line))"

text \<open>A method that is, up to case, one of \<open>GET\<close>, \<open>HEAD\<close> and \<open>POST\<close>.\<close>

definition allowed_method :: "string \<Rightarrow> bool" where
  "allowed_method m = (map lower m = ''get'' \<or> map lower m = ''head'' \<or> map lower m = ''post'')"

text \<open>The characters of \<open>s\<close> from index \<open>h\<close> to index \<open>t\<close>, both included.\<close>

definition sub :: "string \<Rightarrow> int \<Rightarrow> int \<Rightarrow> string" where
  "sub s h t = take (nat (t - h + 1)) (drop (nat h) s)"

section \<open>The connection, the handlers and \<open>http_parse\<close>\<close>

text \<open>
  \<open>http_client_t\<close> with the fields the sources use: the input buffer \<open>in\<close> (written
  \<open>cin\<close>), the request in progress (\<open>None\<close> for \<open>NULL\<close>), the pipe and the status.
  What the handlers send towards the client goes through functions that are not
  among the sources (\<open>send_response_line\<close>, \<open>send_header\<close>, \<open>client_write_string\<close>);
  the field \<open>out\<close> lists what they were given, in order. \<open>closed\<close> lists the
  descriptors the handlers closed.
\<close>

datatype out_item = StatusLine int | Header string string | Text string

datatype client_status = C_IDLE | C_PIPING

record http_client_t =
  cin :: buf_t
  out :: "out_item list"
  req :: "http_request_t option"
  pipe :: "pipe_t option"
  status :: client_status
  closed :: "int list"

text \<open>
  What the parser and the handlers take from outside: the supported version and
  the line limit \<open>MAXBUF\<close> of the configuration, \<open>BUFSIZE\<close>, the answer of
  \<open>open_file\<close> for a URI (the descriptor or the negated status, the size, the MIME
  type and the modification date: it asks the file system), the current date as
  \<open>strftime\<close> prints it, and the indeterminate value the local variable \<open>ret\<close> of
  \<open>http_parse\<close> has before it is assigned.
\<close>

record env =
  http_version :: string
  MAXBUF :: nat
  BUFSIZE :: int
  open_file :: "string \<Rightarrow> int \<times> int \<times> string \<times> string"
  date :: string
  ret_uninit :: int

text \<open>
  Modelled from the spec: \<open>connection_close\<close>, \<open>new_request\<close>, \<open>deinit_request\<close> and
  \<open>end_request\<close> (http_client.c, not among the sources). A request "declares
  \<open>Connection: close\<close> (case-insensitive header match)"; a new request has no
  headers and no body yet; an error "is surfaced as an error response and the
  connection is marked for closure", the request being discarded: \<open>end_request\<close>
  sends the status line and returns \<open>-1\<close>.
\<close>

definition connection_close :: "http_request_t \<Rightarrow> bool" where
  "connection_close r =
     (case get_request_header r ''Connection'' of
        None \<Rightarrow> False
      | Some v \<Rightarrow> strcicmp v ''close'' = 0)"

definition new_request :: http_request_t where
  "new_request = \<lparr>method = [], uri = [], headers = [], content_len = 0, body = None\<rparr>"

definition deinit_request :: "http_client_t \<Rightarrow> http_client_t" where
  "deinit_request c = c\<lparr>req := None\<rparr>"

definition end_request :: "http_client_t \<Rightarrow> int \<Rightarrow> int \<times> http_client_t" where
  "end_request c code = (-1, deinit_request (c\<lparr>out := out c @ [StatusLine code]\<rparr>))"

text \<open>
  Modelled from the spec: \<open>client_readline\<close> (http_client.c, not among the
  sources). It hands out the next line of the unread input, without its \<open>LF\<close> or
  \<open>CRLF\<close> end, as a C string, moves the read cursor past it and returns a positive
  number. When "no complete line is yet available" it returns 0, consumes nothing
  and leaves the line empty: the spec allocates the request "on a line becoming
  available", and \<open>http_parse\<close> tests the length of the line before it tests the
  return value. A line of \<open>MAXBUF\<close> characters or more is not handed out: the result
  is \<open>-1\<close> with the first \<open>MAXBUF - 1\<close> characters, and nothing is consumed.
\<close>

definition cstr :: "char list \<Rightarrow> string" where
  "cstr bs = takeWhile (\<lambda>c. c \<noteq> CHR 0x00) bs"

definition chomp :: "char list \<Rightarrow> char list" where
  "chomp bs = (if bs \<noteq> [] \<and> last bs = CHR 0x0D then butlast bs else bs)"

definition client_readline :: "nat \<Rightarrow> http_client_t \<Rightarrow> int \<times> string \<times> http_client_t" where
  "client_readline maxbuf c =
     (let u = unread (cin c)
      in case strchr u (CHR 0x0A) of
           None \<Rightarrow>
             if maxbuf \<le> length u then (-1, cstr (take (maxbuf - 1) u), c) else (0, [], c)
         | Some k \<Rightarrow>
             if maxbuf \<le> k then (-1, cstr (take (maxbuf - 1) u), c)
             else (int k + 1, cstr (chomp (take k u)),
                   c\<lparr>cin := (cin c)\<lparr>pos := pos (cin c) + int k + 1\<rparr>\<rparr>))"

subsection \<open>The handlers (request_handler.c)\<close>

text \<open>
  The handlers are called with \<open>client->req\<close> not \<open>NULL\<close>; the request it points to
  is their argument \<open>r\<close>. \<open>sprintf("%d")\<close> of the size is \<open>dec\<close>.
\<close>

datatype flag = F_GET | F_HEAD

function dec_nat :: "nat \<Rightarrow> string" where
  "dec_nat n = (if n < 10 then [char_of (48 + n)] else dec_nat (n div 10) @ [char_of (48 + n mod 10)])"
  by pat_completeness auto
termination
  by (relation "measure id") auto

declare dec_nat.simps [simp del]

definition dec :: "int \<Rightarrow> string" where
  "dec i = (if i < 0 then CHR ''-'' # dec_nat (nat (- i)) else dec_nat (nat i))"

definition internal_handler :: "env \<Rightarrow> http_client_t \<Rightarrow> http_request_t \<Rightarrow> flag \<Rightarrow> int \<times> http_client_t" where
  "internal_handler e c r fl =
     (case open_file e (uri r) of
        (fd, sz, mimetype, last_modified) \<Rightarrow>
          if fd < 0 then (- fd, c)
          else
            let c1 = c\<lparr>out := out c @
                      [StatusLine OK,
                       Header ''Content-Type'' mimetype,
                       Header ''Content-Length'' (dec sz),
                       Header ''Date'' (date e),
                       Header ''Last-Modified'' last_modified,
                       Header ''Server'' ''Liso/1.0'',
                       Header ''Connection'' (if connection_close r then ''close'' else ''keep-alive''),
                       Text [CHR 0x0D, CHR 0x0A]]\<rparr>
            in if fl = F_GET
               then (0, c1\<lparr>pipe := Some ((init_pipe (BUFSIZE e))\<lparr>from_fd := fd\<rparr>)\<rparr>)
               else (0, c1\<lparr>closed := closed c1 @ [fd]\<rparr>))"

definition handle_get :: "env \<Rightarrow> http_client_t \<Rightarrow> http_request_t \<Rightarrow> int \<times> http_client_t" where
  "handle_get e c r = internal_handler e (c\<lparr>status := C_PIPING\<rparr>) r F_GET"

definition handle_head :: "env \<Rightarrow> http_client_t \<Rightarrow> http_request_t \<Rightarrow> int \<times> http_client_t" where
  "handle_head e c r = internal_handler e (c\<lparr>status := C_IDLE\<rparr>) r F_HEAD"

definition handle_post :: "http_client_t \<Rightarrow> int \<times> http_client_t" where
  "handle_post c = (NOT_IMPLEMENTED, c)"

subsection \<open>\<open>http_parse\<close>\<close>

text \<open>
  \<open>atoi\<close> on a C string (white space and signs do not occur where it is called).
  Its result is an \<open>int\<close>: the C library computes it as \<open>(int) strtol (s, NULL, 10)\<close>,
  the value of the leading decimal digits, which \<open>strtol\<close> does not let pass
  \<open>LONG_MAX\<close>, narrowed to the 32 bits of an \<open>int\<close> in two's complement. So the
  result is the value of the digits only up to \<open>INT_MAX\<close>: \<open>4294967295\<close> is read
  as \<open>-1\<close> and \<open>4294967299\<close> as 3.
\<close>

definition isdigit :: "char \<Rightarrow> bool" where
  "isdigit c = (48 \<le> (of_char c :: nat) \<and> (of_char c :: nat) \<le> 57)"

definition LONG_MAX :: int where
  "LONG_MAX = 2 ^ 63 - 1"

definition strtol :: "string \<Rightarrow> int" where
  "strtol s = min LONG_MAX (foldl (\<lambda>n c. 10 * n + (int (of_char c) - 48)) 0 (takeWhile isdigit s))"

definition to_int :: "int \<Rightarrow> int" where
  "to_int x = (x + 2 ^ 31) mod 2 ^ 32 - 2 ^ 31"

definition atoi :: "string \<Rightarrow> int" where
  "atoi s = to_int (strtol s)"

text \<open>
  After the handler of a complete request: a non-zero result goes to
  \<open>end_request\<close>; otherwise the request is freed and the result is \<open>-1\<close> when the
  client asked to close and 0 when not. This code stands twice in \<open>http_parse\<close>.
\<close>

definition finish :: "http_client_t \<Rightarrow> http_request_t \<Rightarrow> int \<Rightarrow> int \<times> http_client_t" where
  "finish c r ret =
     (if ret \<noteq> 0 then end_request c ret
      else (if connection_close r then -1 else 0, deinit_request c))"

text \<open>
  The body of \<open>if (strlen(line) == 0)\<close> in the header loop, for the request \<open>r\<close> of
  the client and the current value of \<open>ret\<close>. \<open>Inl\<close> is a \<open>return\<close> of \<open>http_parse\<close>
  with its value; \<open>Inr\<close> is the \<open>break\<close> out of the loop.
\<close>

definition header_end :: "env \<Rightarrow> http_client_t \<Rightarrow> http_request_t \<Rightarrow> int \<Rightarrow> (int \<times> http_client_t) + http_client_t" where
  "header_end e c r ret =
     (case (if strcicmp (method r) ''GET'' = 0 then handle_get e c r else (ret, c)) of
        (ret1, c1) \<Rightarrow>
          if strcicmp (method r) ''POST'' = 0 then
            (case get_request_header r ''Content-Length'' of
               None \<Rightarrow> Inl (end_request c1 LENGTH_REQUIRED)
             | Some b \<Rightarrow>
                 if length b = 0 then Inl (BAD_REQUEST, c1)
                 else if \<exists>ch \<in> set b. \<not> isdigit ch then Inl (end_request c1 BAD_REQUEST)
                 else Inr (c1\<lparr>req := Some (r\<lparr>content_len := atoi b\<rparr>)\<rparr>))
          else
            (case (if strcicmp (method r) ''HEAD'' = 0 then handle_head e c1 r else (ret1, c1)) of
               (ret2, c2) \<Rightarrow> Inl (finish c2 r ret2)))"

text \<open>
  The \<open>while\<close> loop that reads the request headers. It is entered with a request;
  with none (\<open>client->req\<close> is never \<open>NULL\<close> there) the model leaves the loop.
\<close>

function read_headers :: "env \<Rightarrow> http_client_t \<Rightarrow> int \<Rightarrow> (int \<times> http_client_t) + http_client_t" where
  "read_headers e c ret =
     (case req c of
        None \<Rightarrow> Inr c
      | Some r \<Rightarrow>
          if content_len r = -1 then
            (case client_readline (MAXBUF e) c of
               (n, line, c1) \<Rightarrow>
                 if n > 0 then
                   (if length line = 0 then header_end e c1 r ret
                    else (case parse_header r line of
                            (ret', r') \<Rightarrow>
                              if ret' = -1
                              then Inl (end_request (c1\<lparr>req := Some r'\<rparr>) BAD_REQUEST)
                              else read_headers e (c1\<lparr>req := Some r'\<rparr>) ret'))
                 else Inr c)
          else Inr c)"
  by pat_completeness auto
termination
proof (relation "measure (\<lambda>(e, c, ret). nat (datasize (cin c) - pos (cin c)))")
  show "wf (measure (\<lambda>(e :: env, c :: http_client_t, ret :: int).
      nat (datasize (cin c) - pos (cin c))))"
    by simp
next
  fix e :: env and c c1 :: http_client_t and ret n ret' :: int and r r' :: http_request_t
    and line :: string and y :: "string \<times> http_client_t" and z :: "int \<times> http_request_t"
  assume rl: "(n, y) = client_readline (MAXBUF e) c" "(line, c1) = y" and n: "0 < n"
  have "length (unread (cin c)) \<le> nat (datasize (cin c) - pos (cin c))"
    by (simp add: unread_def)
  moreover have lt: "strchr s x = Some k \<Longrightarrow> k < length s" for s :: string and x k
    by (induction s arbitrary: k) (auto split: if_splits)
  from rl n obtain k where "k < length (unread (cin c))"
    "c1 = c\<lparr>cin := (cin c)\<lparr>pos := pos (cin c) + int k + 1\<rparr>\<rparr>"
    by (auto simp: client_readline_def Let_def split: option.splits if_splits dest: lt)
  ultimately show "((e, c1\<lparr>req := Some r'\<rparr>, ret'), (e, c, ret))
      \<in> measure (\<lambda>(e, c, ret). nat (datasize (cin c) - pos (cin c)))"
    by simp
qed

declare read_headers.simps [simp del]

text \<open>The end of \<open>http_parse\<close>: "see if the body of the request is ready".\<close>

definition read_body :: "http_client_t \<Rightarrow> int \<times> http_client_t" where
  "read_body c =
     (case req c of
        None \<Rightarrow> (0, c)
      | Some r \<Rightarrow>
          if content_len r > 0 then
            (if datasize (cin c) - pos (cin c) \<ge> content_len r then
               let r1 = r\<lparr>body := Some (pos (cin c))\<rparr>;
                   c1 = c\<lparr>req := Some r1,
                          cin := (cin c)\<lparr>pos := pos (cin c) + content_len r\<rparr>\<rparr>
               in (case handle_post c1 of (ret, c2) \<Rightarrow> finish c2 r1 ret)
             else (0, c))
          else (0, c))"

definition http_parse :: "env \<Rightarrow> http_client_t \<Rightarrow> int \<times> http_client_t" where
  "http_parse e c =
     (case (case req c of
              None \<Rightarrow>
                (case client_readline (MAXBUF e) c of
                   (ret, line, c1) \<Rightarrow>
                     if length line = 0 then Inl (0, c1)
                     else
                       let c2 = c1\<lparr>req := Some (new_request\<lparr>content_len := -1\<rparr>)\<rparr>
                       in if ret = 0 then Inl (0, c2)
                          else if ret < 0 then Inl (end_request c2 BAD_REQUEST)
                          else (case parse_request_line (http_version e)
                                       (new_request\<lparr>content_len := -1\<rparr>) line of
                                  (ret', r') \<Rightarrow>
                                    if ret' > 0
                                    then Inl (end_request (c2\<lparr>req := Some r'\<rparr>) ret')
                                    else read_headers e (c2\<lparr>req := Some r'\<rparr>) ret'))
            | Some r \<Rightarrow> read_headers e c (ret_uninit e)) of
        Inl result \<Rightarrow> result
      | Inr c' \<Rightarrow> read_body c')"

subsection \<open>Bytes arriving on a connection\<close>

text \<open>
  A fresh connection: the sources create the input buffer with \<open>init_buf\<close>, and a
  connection starts with no request, no pipe and nothing sent.
\<close>

definition new_client :: "env \<Rightarrow> http_client_t" where
  "new_client e = \<lparr>cin = init_buf (BUFSIZE e), out = [], req = None, pipe = None,
                   status = C_IDLE, closed = []\<rparr>"

text \<open>
  One readiness event of a connection, as the event loop (not among the sources)
  handles it: the bytes \<open>q\<close> that have arrived are received by \<open>io_recv\<close>, then
  \<open>http_parse\<close> runs once.
\<close>

definition arrive :: "env \<Rightarrow> char list \<Rightarrow> http_client_t \<Rightarrow> http_client_t" where
  "arrive e q c = c\<lparr>cin := snd (snd (io_recv (BUFSIZE e) [Data q] (cin c)))\<rparr>"

definition on_readable :: "env \<Rightarrow> char list \<Rightarrow> http_client_t \<Rightarrow> int \<times> http_client_t" where
  "on_readable e q c = http_parse e (arrive e q c)"

text \<open>
  A sequence of readiness events, one per fragment, as long as \<open>http_parse\<close>
  returns 0 (on \<open>-1\<close> the connection is closed). The result is the return value
  of the last call and the connection it left.
\<close>

fun run :: "env \<Rightarrow> char list list \<Rightarrow> int \<times> http_client_t \<Rightarrow> int \<times> http_client_t" where
  "run e [] rc = rc"
| "run e (q # qs) (r, c) = (if r = 0 then run e qs (on_readable e q c) else (r, c))"

text \<open>
  What a run shows of a connection: everything but the capacity of the input
  buffer and the bytes of its region beyond \<open>datasize\<close>, which depend on how the
  bytes were split over \<open>recv\<close> calls.
\<close>

definition received :: "buf_t \<Rightarrow> char list" where
  "received bp = take (nat (datasize bp)) (buf bp)"

definition observe :: "int \<times> http_client_t \<Rightarrow>
    int \<times> (char list \<times> int \<times> int) \<times> http_request_t option \<times> out_item list \<times>
    pipe_t option \<times> client_status \<times> int list" where
  "observe rc =
     (case rc of
        (r, c) \<Rightarrow> (r, (received (cin c), datasize (cin c), pos (cin c)),
                   req c, out c, pipe c, status c, closed c))"

subsection \<open>Notions the fragmentation property is stated with\<close>

text \<open>
  \<open>feed q c\<close>: the connection \<open>c\<close> with the bytes \<open>q\<close> appended to the bytes its input
  buffer holds. \<open>buf_ok\<close>: the cursors of a buffer lie inside its region.
\<close>

definition feed :: "char list \<Rightarrow> http_client_t \<Rightarrow> http_client_t" where
  "feed q c = c\<lparr>cin := (cin c)\<lparr>buf := received (cin c) @ q,
                                 datasize := datasize (cin c) + int (length q)\<rparr>\<rparr>"

definition buf_ok :: "buf_t \<Rightarrow> bool" where
  "buf_ok bp = (0 \<le> pos bp \<and> pos bp \<le> datasize bp \<and> datasize bp \<le> int (length (buf bp)))"

definition req_ok :: "http_client_t \<Rightarrow> bool" where
  "req_ok c = (case req c of None \<Rightarrow> True | Some r \<Rightarrow> allowed_method (method r))"

text \<open>The code of \<open>http_parse\<close> after the request line: the headers, then the body.\<close>

definition parse_rest :: "env \<Rightarrow> http_client_t \<Rightarrow> int \<Rightarrow> int \<times> http_client_t" where
  "parse_rest e c ret = (case read_headers e c ret of Inl result \<Rightarrow> result | Inr c' \<Rightarrow> read_body c')"

text \<open>
  \<open>no_sentinel c\<close>: if \<open>c\<close> holds a \<open>POST\<close> request whose \<open>content_len\<close> is \<open>-1\<close>, the
  mark of open headers, then no \<open>Content-Length\<close> header that \<open>atoi\<close> reads as \<open>-1\<close>
  is the one a lookup finds.
  \<open>awaits e c\<close>: run on \<open>c\<close>, \<open>http_parse\<close> returns 0 and waits for more input,
  either with the request it is reading or, with none yet, having consumed
  nothing, and leaves a connection with \<open>no_sentinel\<close>. (A call that completes a
  request, or that skips an empty line before a request line, does not wait in
  this sense.)
\<close>

definition no_sentinel :: "http_client_t \<Rightarrow> bool" where
  "no_sentinel c =
     (case req c of
        None \<Rightarrow> True
      | Some r \<Rightarrow>
          map lower (method r) = ''post'' \<longrightarrow> content_len r = -1 \<longrightarrow>
          (case get_request_header r ''Content-Length'' of
             None \<Rightarrow> True
           | Some v \<Rightarrow> atoi v \<noteq> -1))"

definition awaits :: "env \<Rightarrow> http_client_t \<Rightarrow> bool" where
  "awaits e c =
     (case http_parse e c of
        (x, c1) \<Rightarrow> x = 0 \<and> (req c1 \<noteq> None \<or> c1 = c) \<and> no_sentinel c1)"

text \<open>Like \<open>run\<close>, with the bytes appended by \<open>feed\<close> instead of received by \<open>io_recv\<close>.\<close>

fun feed_run :: "env \<Rightarrow> char list list \<Rightarrow> int \<times> http_client_t \<Rightarrow> int \<times> http_client_t" where
  "feed_run e [] rc = rc"
| "feed_run e (q # qs) (r, c) = (if r = 0 then feed_run e qs (http_parse e (feed q c)) else (r, c))"

text \<open>Two connections that show the same.\<close>

definition sim :: "http_client_t \<Rightarrow> http_client_t \<Rightarrow> bool" where
  "sim c d = (observe (0, c) = observe (0, d))"

text \<open>
  \<open>recv_ok B bp\<close>: a buffer as \<open>init_buf\<close> and \<open>io_recv\<close> leave it, for \<open>BUFSIZE = B\<close>
  of at least 4: its region has \<open>bufsize\<close> bytes, its cursors lie inside, and at
  least two bytes are free.
\<close>

definition recv_ok :: "int \<Rightarrow> buf_t \<Rightarrow> bool" where
  "recv_ok B bp = (4 \<le> B \<and> 0 \<le> pos bp \<and> pos bp \<le> datasize bp \<and>
                   int (length (buf bp)) = bufsize bp \<and> datasize bp + 2 \<le> bufsize bp)"

text \<open>
  \<open>moved c c'\<close>: the input buffer of \<open>c'\<close> is that of \<open>c\<close> with the read cursor moved
  forward, at most to \<open>datasize\<close>.
\<close>

definition moved :: "http_client_t \<Rightarrow> http_client_t \<Rightarrow> bool" where
  "moved c c' = (\<exists>p. cin c' = (cin c)\<lparr>pos := p\<rparr> \<and> pos (cin c) \<le> p \<and> p \<le> datasize (cin c))"

subsection \<open>Well-formed requests\<close>

text \<open>
  The bytes of a request with the request line \<open>rl\<close>, the header lines \<open>hs\<close> and the
  body \<open>bd\<close>: every line ends with \<open>CRLF\<close>, and an empty line ends the headers.
\<close>

definition CRLF :: string where
  "CRLF = [CHR 0x0D, CHR 0x0A]"

definition wire :: "string \<Rightarrow> string list \<Rightarrow> string \<Rightarrow> string" where
  "wire rl hs bd = rl @ CRLF @ concat (map (\<lambda>h. h @ CRLF) hs) @ CRLF @ bd"

text \<open>
  A line that \<open>client_readline\<close> hands out as it is: not empty, without \<open>LF\<close> and
  \<open>NUL\<close>, and shorter, with its \<open>CR\<close>, than \<open>MAXBUF\<close>.
\<close>

definition line_ok :: "env \<Rightarrow> string \<Rightarrow> bool" where
  "line_ok e l = (l \<noteq> [] \<and> CHR 0x0A \<notin> set l \<and> CHR 0x00 \<notin> set l \<and> length l + 1 < MAXBUF e)"

text \<open>
  A request line of three tokens or more: an allowed method, a uri, and the
  version of the server. A header line with a \<open>:\<close>, a key and a value.
\<close>

definition request_line_ok :: "env \<Rightarrow> string \<Rightarrow> bool" where
  "request_line_ok e l = (3 \<le> length (tokens l) \<and> allowed_method (tokens l ! 0) \<and>
     map lower (tokens l ! 2) = map lower (http_version e))"

definition header_ok :: "string \<Rightarrow> bool" where
  "header_ok l = (CHR '':'' \<in> set l \<and> header_key l \<noteq> [] \<and> header_val l \<noteq> [])"

text \<open>
  The body: a \<open>POST\<close> request has a \<open>Content-Length\<close> header, and the value of
  every \<open>Content-Length\<close> header is a string of digits that \<open>atoi\<close> reads as the
  length of the body; a \<open>GET\<close> or \<open>HEAD\<close> request has no body.
\<close>

definition length_ok :: "string \<Rightarrow> string \<Rightarrow> bool" where
  "length_ok v bd = (list_all isdigit v \<and> atoi v = int (length bd))"

definition body_ok :: "string \<Rightarrow> string list \<Rightarrow> string \<Rightarrow> bool" where
  "body_ok m hs bd =
     (if map lower m = ''post'' then
        list_ex (\<lambda>l. header_key l = ''Content-Length'') hs \<and>
        list_all (\<lambda>l. header_key l = ''Content-Length'' \<longrightarrow> length_ok (header_val l) bd) hs
      else bd = [])"

definition well_formed :: "env \<Rightarrow> string \<Rightarrow> string list \<Rightarrow> string \<Rightarrow> bool" where
  "well_formed e rl hs bd =
     (line_ok e rl \<and> request_line_ok e rl \<and> list_all (\<lambda>h. line_ok e h \<and> header_ok h) hs \<and>
      body_ok (tokens rl ! 0) hs bd)"

text \<open>
  \<open>length_known r hs bd\<close>: what \<open>body_ok\<close> says, for a request \<open>r\<close> that has read some
  of the header lines and has the lines \<open>hs\<close> left to read.
\<close>

definition length_known :: "http_request_t \<Rightarrow> string list \<Rightarrow> string \<Rightarrow> bool" where
  "length_known r hs bd =
     (if map lower (method r) = ''post'' then
        (''Content-Length'' \<in> fst ` set (headers r) \<or>
         list_ex (\<lambda>l. header_key l = ''Content-Length'') hs) \<and>
        (\<forall>v. (''Content-Length'', v) \<in> set (headers r) \<longrightarrow> v \<noteq> [] \<and> length_ok v bd) \<and>
        list_all (\<lambda>l. header_key l = ''Content-Length'' \<longrightarrow> length_ok (header_val l) bd) hs
      else bd = [])"

text \<open>
  A small configuration for examples: lines of up to 62 characters, an initial
  buffer of 8 bytes, and a document root where no file is found.
\<close>

definition env0 :: env where
  "env0 = \<lparr>http_version = ''HTTP/1.1'', MAXBUF = 64, BUFSIZE = 8,
            open_file = (\<lambda>u. (- 404, 0, [], [])), date = ''now'', ret_uninit = 0\<rparr>"

section \<open>Properties of the buffered socket layer\<close>

subsection \<open>Bounds on the system calls\<close>

lemma size_t_le: "0 \<le> x \<Longrightarrow> size_t x \<le> x \<and> 0 \<le> size_t x"
  by (simp add: size_t_def)

lemma recv_bound:
  assumes "recv s len = (n, a, bs, s')"
  shows "(0 \<le> len \<longrightarrow> n \<le> len) \<and> (0 < n \<longrightarrow> int (length bs) = n)"
proof (cases s)
  case Nil
  with assms show ?thesis by auto
next
  case (Cons e t)
  with assms show ?thesis by (cases e) (auto simp: Let_def)
qed

lemma size_t_nonneg: "0 \<le> size_t x"
  by (simp add: size_t_def)

lemma send_range:
  assumes "send s len = (n, a, s')" "0 \<le> len"
  shows "n = -1 \<or> (0 \<le> n \<and> n \<le> len)"
proof (cases s)
  case Nil
  with assms show ?thesis by auto
next
  case (Cons e t)
  with assms show ?thesis by (cases e) auto
qed

lemma read_range:
  assumes "read f len = (r, bs, f')" "0 \<le> len"
  shows "r = -1 \<or> (0 \<le> r \<and> r \<le> len)"
proof (cases f)
  case Nil
  with assms show ?thesis by auto
next
  case (Cons e t)
  with assms show ?thesis by (cases e) (auto simp: Let_def)
qed

lemma size_t_id: "0 \<le> x \<Longrightarrow> size_t x = x"
  by (simp add: size_t_def)

lemma send_bound:
  assumes "send s len = (n, a, s')"
  shows "0 \<le> len \<longrightarrow> n \<le> len \<and> -1 \<le> n"
proof (cases s)
  case Nil
  with assms show ?thesis by auto
next
  case (Cons e t)
  with assms show ?thesis by (cases e) auto
qed

subsection \<open>The loops of \<open>io_recv\<close> and \<open>io_send\<close>\<close>

text \<open>
  Started with at least one free byte, the receive loop keeps one free: every \<open>recv\<close>
  is asked for \<open>bufsize - datasize - 1\<close> bytes, and growing only adds room.
\<close>

lemma io_recv_loop_room:
  "datasize bp < bufsize bp \<Longrightarrow> 0 \<le> bufsize bp \<Longrightarrow>
   io_recv_loop B s bp = (n, a, s', bp') \<Longrightarrow>
   datasize bp' < bufsize bp' \<and> datasize bp \<le> datasize bp' \<and> pos bp' = pos bp \<and> n \<le> 0"
proof (induction B s bp rule: io_recv_loop.induct)
  case (1 B s bp)
  obtain k ag bs t where r: "recv s (size_t (bufsize bp - datasize bp - 1)) = (k, ag, bs, t)"
    by (metis prod_cases4)
  from recv_bound [OF r] size_t_le [of "bufsize bp - datasize bp - 1"] "1.prems"(1)
  have kb: "k \<le> bufsize bp - datasize bp - 1" by simp
  show ?case
  proof (cases "0 < k")
    case False
    with r "1.prems" show ?thesis
      by (simp add: io_recv_loop.simps [of B s bp])
  next
    case True
    define bp1 where "bp1 = bp\<lparr>buf := store (buf bp) (nat (datasize bp)) bs,
                        datasize := datasize bp + k\<rparr>"
    define bp2 where "bp2 = (if full B bp1
                       then bp1\<lparr>buf := realloc (buf bp1) (nat (bufsize bp1 + bufsize bp1 div 2)),
                                bufsize := bufsize bp1 + bufsize bp1 div 2\<rparr>
                       else bp1)"
    have step: "io_recv_loop B s bp = io_recv_loop B t bp2"
      using r True by (simp add: io_recv_loop.simps [of B s bp] bp1_def bp2_def Let_def)
    have a: "datasize bp2 < bufsize bp2" "0 \<le> bufsize bp2" "datasize bp2 = datasize bp + k"
      "pos bp2 = pos bp"
      using kb "1.prems"(1,2) by (auto simp: bp1_def bp2_def)
    from "1.IH" [OF r [symmetric] refl refl True bp1_def bp2_def a(1,2)] step "1.prems"(3)
    have "datasize bp' < bufsize bp' \<and> datasize bp2 \<le> datasize bp' \<and> pos bp' = pos bp2 \<and> n \<le> 0"
      by simp
    with a True show ?thesis by simp
  qed
qed

lemma io_send_loop_inv:
  "buf_inv bp \<Longrightarrow> io_send_loop s bp k = (e, k', s', bp') \<Longrightarrow>
   buf_inv bp' \<and> bp' = bp\<lparr>pos := pos bp'\<rparr> \<and> pos bp \<le> pos bp'"
proof (induction s bp k rule: io_send_loop.induct)
  case (1 s bp k)
  show ?case
  proof (cases "pos bp < datasize bp")
    case False
    with "1.prems" show ?thesis by (simp add: io_send_loop.simps [of s bp k])
  next
    case True
    obtain n ag t where r: "send s (size_t (datasize bp - pos bp)) = (n, ag, t)"
      by (metis prod_cases3)
    from send_bound [OF r] size_t_le [of "datasize bp - pos bp"] True
    have nb: "n \<le> datasize bp - pos bp" "-1 \<le> n" by simp_all
    show ?thesis
    proof (cases "n < 0")
      case True
      with r \<open>pos bp < datasize bp\<close> "1.prems" show ?thesis
        by (auto simp: io_send_loop.simps [of s bp k] split: if_splits)
    next
      case False
      have step: "io_send_loop s bp k = io_send_loop t (bp\<lparr>pos := pos bp + n\<rparr>) (k + n)"
        using r True False by (simp add: io_send_loop.simps [of s bp k])
      have inv: "buf_inv (bp\<lparr>pos := pos bp + n\<rparr>)"
        using "1.prems"(1) nb False by (simp add: buf_inv_def)
      from "1.IH" [OF True r [symmetric] refl False inv] step "1.prems"(2)
      have "buf_inv bp' \<and> bp' = bp\<lparr>pos := pos bp + n\<rparr>\<lparr>pos := pos bp'\<rparr> \<and> pos bp + n \<le> pos bp'"
        by simp
      with False show ?thesis by simp
    qed
  qed
qed

subsection \<open>Shrinking\<close>

lemma io_shrink_inv: "buf_inv bp \<Longrightarrow> buf_inv (io_shrink bp)"
  by (simp add: buf_inv_def io_shrink_def Let_def) linarith

lemma io_shrink_unread:
  assumes "buf_inv bp" "nat (datasize bp) \<le> length (buf bp)"
  shows "unread (io_shrink bp) = unread bp"
    and "pos (io_shrink bp) = 0"
    and "datasize (io_shrink bp) = datasize bp - pos bp"
proof -
  let ?n = "nat (datasize bp - pos bp)"
  let ?m = "memmove_down (buf bp) (nat (pos bp)) ?n"
  let ?bs = "nat (bufsize bp - (bufsize bp - datasize bp + pos bp) div 2)"
  from assms(1) have le: "?n \<le> ?bs" by (simp add: buf_inv_def) linarith
  from assms have len: "?n \<le> length (drop (nat (pos bp)) (buf bp))"
    by (simp add: buf_inv_def) linarith
  have "?n \<le> length ?m"
    using len by (simp add: memmove_down_def min_def)
  then have "take ?n (realloc ?m ?bs) = take ?n ?m"
    using le by (simp add: realloc_def)
  also have "\<dots> = take ?n (drop (nat (pos bp)) (buf bp))"
    using len by (simp add: memmove_down_def)
  finally show "unread (io_shrink bp) = unread bp"
    by (simp add: unread_def io_shrink_def Let_def)
  show "pos (io_shrink bp) = 0" "datasize (io_shrink bp) = datasize bp - pos bp"
    by (simp_all add: io_shrink_def Let_def)
qed

subsection \<open>The capacity invariant\<close>

text \<open>
  C2, as stated, fails for \<open>io_recv\<close> on a buffer that is exactly full
  (\<open>datasize = bufsize\<close>): the length handed to \<open>recv\<close> is \<open>bufsize - datasize - 1 = -1\<close>,
  which as a \<open>size_t\<close> is \<open>2 ^ 64 - 1\<close>, so \<open>recv\<close> may deliver more bytes than the
  region has room for. Here ten bytes arrive for a full buffer of eight:
  afterwards \<open>datasize = 18\<close> and \<open>bufsize = 12\<close>.
\<close>

theorem io_recv_full_buffer_counterexample:
  "buf_inv \<lparr>buf = ''........'', bufsize = 8, datasize = 8, pos = 0\<rparr> \<and>
   \<not> buf_inv (snd (snd (io_recv 8 [Data ''0123456789'']
           \<lparr>buf = ''........'', bufsize = 8, datasize = 8, pos = 0\<rparr>))) \<and>
   datasize (snd (snd (io_recv 8 [Data ''0123456789'']
           \<lparr>buf = ''........'', bufsize = 8, datasize = 8, pos = 0\<rparr>))) = 18 \<and>
   bufsize (snd (snd (io_recv 8 [Data ''0123456789'']
           \<lparr>buf = ''........'', bufsize = 8, datasize = 8, pos = 0\<rparr>))) = 12"
  by code_simp

text \<open>
  C2, amended: from every buffer with \<open>0 \<le> pos \<le> datasize \<le> bufsize\<close>, \<open>io_shrink\<close>
  and \<open>io_send\<close> (whatever the destination does) preserve the invariant; \<open>io_recv\<close>
  (whatever the socket delivers) preserves it when the buffer is not exactly full,
  \<open>datasize < bufsize\<close>; and \<open>io_shrink\<close> moves the unread bytes \<open>[pos, datasize)\<close>
  unchanged to \<open>[0, datasize - pos)\<close> and resets \<open>pos\<close> to 0 (the region holding at
  least \<open>datasize\<close> bytes).
\<close>

theorem growbuffer_invariant:
  assumes "buf_inv bp"
  shows "buf_inv (io_shrink bp) \<and>
     buf_inv (snd (snd (io_send B d bp))) \<and>
     (datasize bp < bufsize bp \<longrightarrow> buf_inv (snd (snd (io_recv B s bp)))) \<and>
     (datasize bp \<le> int (length (buf bp)) \<longrightarrow>
        pos (io_shrink bp) = 0 \<and> datasize (io_shrink bp) = datasize bp - pos bp \<and>
        take (nat (datasize bp - pos bp)) (buf (io_shrink bp)) = unread bp)"
proof -
  have 1: "buf_inv (io_shrink bp)" using assms by (rule io_shrink_inv)
  obtain e k d' bp1 where sl: "io_send_loop d bp 0 = (e, k, d', bp1)"
    by (metis prod_cases4)
  from io_send_loop_inv [OF assms sl] have i1: "buf_inv bp1" by simp
  then have 2: "buf_inv (snd (snd (io_send B d bp)))"
    using sl by (simp add: io_send_def io_shrink_inv)
  have 3: "buf_inv (snd (snd (io_recv B s bp)))" if lt: "datasize bp < bufsize bp"
  proof -
    obtain n a s' bp2 where rl: "io_recv_loop B s bp = (n, a, s', bp2)"
      by (metis prod_cases4)
    from assms lt have "0 \<le> bufsize bp" by (simp add: buf_inv_def)
    from io_recv_loop_room [OF lt this rl] assms have "buf_inv bp2"
      by (simp add: buf_inv_def)
    then show ?thesis using rl by (simp add: io_recv_def)
  qed
  have 4: "pos (io_shrink bp) = 0 \<and> datasize (io_shrink bp) = datasize bp - pos bp \<and>
        take (nat (datasize bp - pos bp)) (buf (io_shrink bp)) = unread bp"
    if "datasize bp \<le> int (length (buf bp))"
  proof -
    from that have "nat (datasize bp) \<le> length (buf bp)" by simp
    from io_shrink_unread [OF assms this] show ?thesis
      by (simp add: unread_def)
  qed
  from 1 2 3 4 show ?thesis by blast
qed

theorem growbuffer_invariant_witness:
  "buf_inv \<lparr>buf = ''xxhello.........'', bufsize = 16, datasize = 7, pos = 2\<rparr> \<and>
   buf_inv (io_shrink \<lparr>buf = ''xxhello.........'', bufsize = 16, datasize = 7, pos = 2\<rparr>) \<and>
   buf_inv (snd (snd (io_send 4 [Accept 2]
      \<lparr>buf = ''xxhello.........'', bufsize = 16, datasize = 7, pos = 2\<rparr>))) \<and>
   buf_inv (snd (snd (io_recv 4 [Data ''ab'']
      \<lparr>buf = ''xxhello.........'', bufsize = 16, datasize = 7, pos = 2\<rparr>))) \<and>
   pos (io_shrink \<lparr>buf = ''xxhello.........'', bufsize = 16, datasize = 7, pos = 2\<rparr>) = 0 \<and>
   datasize (io_shrink \<lparr>buf = ''xxhello.........'', bufsize = 16, datasize = 7, pos = 2\<rparr>) = 5 \<and>
   take 5 (buf (io_shrink \<lparr>buf = ''xxhello.........'', bufsize = 16, datasize = 7, pos = 2\<rparr>))
     = ''hello''"
proof -
  have i: "buf_inv \<lparr>buf = ''xxhello.........'', bufsize = 16, datasize = 7, pos = 2\<rparr>"
    by (simp add: buf_inv_def)
  from growbuffer_invariant [OF i, of 4 "[Accept 2]" "[Data ''ab'']"] i show ?thesis
    by (simp add: unread_def)
qed

subsection \<open>Growth\<close>

text \<open>
  C3, as stated, fails twice. The threshold is half of the constant \<open>BUFSIZE\<close>, not
  half of the current capacity: with \<open>BUFSIZE = 8\<close>, a buffer of capacity 12 that
  holds 7 bytes after a read has \<open>12 - 7 < 12 / 2\<close> and does not grow. And the new
  capacity is rounded down: with \<open>BUFSIZE = 4\<close>, capacity 3 grows to 4, which is less
  than 4.5 rounded up (\<open>3 * 3 div 2 + 3 * 3 mod 2 = 5\<close>).
\<close>

theorem growth_rule_counterexample:
  "bufsize (snd (snd (io_recv 8 [Data ''0123456'']
      \<lparr>buf = ''............'', bufsize = 12, datasize = 0, pos = 0\<rparr>))) = 12 \<and>
   datasize (snd (snd (io_recv 8 [Data ''0123456'']
      \<lparr>buf = ''............'', bufsize = 12, datasize = 0, pos = 0\<rparr>))) = 7 \<and>
   (12::int) - 7 < 12 div 2 \<and>
   bufsize (snd (snd (io_recv 4 [Data ''ab'']
      \<lparr>buf = ''...'', bufsize = 3, datasize = 0, pos = 0\<rparr>))) = 4 \<and>
   (4::int) < 3 * 3 div 2 + 3 * 3 mod 2"
  by code_simp

text \<open>
  C3, amended: after each successful read (a \<open>recv\<close> that returns \<open>n > 0\<close>) the loop
  of \<open>io_recv\<close> goes on with a buffer that holds \<open>n\<close> bytes more and whose capacity
  grew exactly when \<open>bufsize - datasize < BUFSIZE / 2\<close> (the new \<open>datasize\<close>, the
  constant \<open>BUFSIZE\<close>, integer halving); the new capacity is \<open>bufsize + bufsize / 2\<close>,
  that is 1.5 times the old one rounded down.
\<close>

theorem io_recv_growth_rule:
  assumes "recv s (size_t (bufsize bp - datasize bp - 1)) = (n, a, bs, s')" and "0 < n"
  shows "\<exists>bp'. io_recv_loop B s bp = io_recv_loop B s' bp' \<and>
           datasize bp' = datasize bp + n \<and> pos bp' = pos bp \<and>
           bufsize bp' = (if bufsize bp - datasize bp' < B div 2
                          then 3 * bufsize bp div 2 else bufsize bp)"
proof -
  define bp1 where "bp1 = bp\<lparr>buf := store (buf bp) (nat (datasize bp)) bs,
                        datasize := datasize bp + n\<rparr>"
  define bp2 where "bp2 = (if full B bp1
                       then bp1\<lparr>buf := realloc (buf bp1) (nat (bufsize bp1 + bufsize bp1 div 2)),
                                bufsize := bufsize bp1 + bufsize bp1 div 2\<rparr>
                       else bp1)"
  have "io_recv_loop B s bp = io_recv_loop B s' bp2"
    using assms by (simp add: io_recv_loop.simps [of B s bp] bp1_def bp2_def Let_def)
  moreover have "datasize bp2 = datasize bp + n" "pos bp2 = pos bp"
    by (simp_all add: bp1_def bp2_def)
  moreover have "bufsize bp2 = (if bufsize bp - datasize bp2 < B div 2
                          then 3 * bufsize bp div 2 else bufsize bp)"
    by (auto simp: bp1_def bp2_def full_def)
  ultimately show ?thesis by blast
qed

theorem io_recv_growth_rule_witness: "\<exists>bp'. io_recv_loop 8 [Data ''0123456''] (init_buf 8) = io_recv_loop 8 [] bp' \<and>
           datasize bp' = 7 \<and> bufsize bp' = 12"
proof -
  have r: "recv [Data ''0123456''] (size_t (bufsize (init_buf 8) - datasize (init_buf 8) - 1))
      = (7, False, ''0123456'', [])"
    by (simp add: init_buf_def size_t_def)
  from io_recv_growth_rule [OF r, of 8] obtain bp' where
    "io_recv_loop 8 [Data ''0123456''] (init_buf 8) = io_recv_loop 8 [] bp'"
    "datasize bp' = datasize (init_buf 8) + 7"
    "bufsize bp' = (if bufsize (init_buf 8) - datasize bp' < 8 div 2
                          then 3 * bufsize (init_buf 8) div 2 else bufsize (init_buf 8))"
    by auto
  then show ?thesis by (intro exI [of _ bp']) (simp add: init_buf_def)
qed

subsection \<open>One byte always stays free\<close>

text \<open>
  C10: every \<open>recv\<close> of \<open>io_recv\<close> is asked for \<open>bufsize - datasize - 1\<close> bytes, so a
  call of \<open>io_recv\<close> that starts with \<open>datasize < bufsize\<close> (the capacity being a byte
  count, not negative) ends with \<open>datasize \<le> bufsize - 1\<close>, whatever the socket
  delivers.
\<close>

theorem io_recv_never_fills:
  assumes "datasize bp < bufsize bp" "0 \<le> bufsize bp"
  shows "datasize (snd (snd (io_recv B s bp))) \<le> bufsize (snd (snd (io_recv B s bp))) - 1"
proof -
  obtain n a s' bp' where l: "io_recv_loop B s bp = (n, a, s', bp')"
    by (metis prod_cases4)
  from io_recv_loop_room [OF assms l] have "datasize bp' < bufsize bp'" by simp
  with l show ?thesis by (simp add: io_recv_def)
qed

theorem io_recv_never_fills_witness:
  "datasize (init_buf 8) < bufsize (init_buf 8) \<and> 0 \<le> bufsize (init_buf 8) \<and>
   datasize (snd (snd (io_recv 8 [Data ''0123456789'', Data ''abc''] (init_buf 8))))
     \<le> bufsize (snd (snd (io_recv 8 [Data ''0123456789'', Data ''abc''] (init_buf 8)))) - 1"
  using io_recv_never_fills [of "init_buf 8" 8 "[Data ''0123456789'', Data ''abc'']"]
  by (simp add: init_buf_def)

section \<open>Properties of the file-to-socket pipe\<close>

lemma reads_of_append [simp]: "reads_of (xs @ ys) = reads_of xs @ reads_of ys"
  by (induction xs rule: reads_of.induct) auto
lemma closes_of_append [simp]: "closes_of (xs @ ys) = closes_of xs @ closes_of ys"
  by (induction xs rule: closes_of.induct) auto
lemma sends_of_append [simp]: "sends_of (xs @ ys) = sends_of xs @ sends_of ys"
  by (induction xs rule: sends_of.induct) auto

lemma io_pipe_send_cases:
  assumes "io_pipe_send pp w = (ret, pp', w')"
  shows "\<exists>n. calls w' = calls w @ SysSend n # (if ret = 0 then [] else [SysClose (from_fd pp)]) \<and>
     (n = -1 \<and> ret = -1 \<and> from_fd pp \<notin> read_fds_cpy w' \<or>
      0 \<le> n \<and> ret = 0 \<and> offset pp' = offset pp + n \<and> read_fds_cpy w' = read_fds_cpy w) \<and>
     from_fd pp' = from_fd pp \<and> pipe_datasize pp' = pipe_datasize pp \<and> src_file w' = src_file w"
proof -
  obtain n a d' where s: "send (dst_sock w) (size_t (pipe_datasize pp - offset pp)) = (n, a, d')"
    by (metis prod_cases3)
  from send_range [OF s size_t_nonneg] consider "n = -1" | "0 \<le> n" by auto
  then show ?thesis
  proof cases
    case 1
    with s assms show ?thesis
      by (auto simp: io_pipe_send_def Let_def close_def remove_read_fd_def)
  next
    case 2
    then have "n \<noteq> -1" by simp
    with s assms 2 show ?thesis
      by (auto simp: io_pipe_send_def Let_def)
  qed
qed

text \<open>
  One step of \<open>io_pipe\<close>, read off the system calls \<open>new\<close> it makes. With the
  scratch buffer exhausted (\<open>datasize \<le> offset\<close>) it starts with exactly one \<open>read\<close>:
  a result of 0 gives Done (1) and \<open>-1\<close> gives Error (\<open>-1\<close>), with no \<open>send\<close>; a
  positive result is followed by one \<open>send\<close>. With bytes left in the scratch buffer
  there is no \<open>read\<close> and one \<open>send\<close>. A \<open>send\<close> that returns \<open>-1\<close>, whatever \<open>errno\<close> says, gives Error; any
  other result \<open>n\<close> (zero included) is added to \<open>offset\<close> (which a refill has reset to
  0) and gives Continue (0). The source descriptor is closed, as the last call of
  the step, and removed from the read set exactly when the step returns Done or
  Error; a step that returns Continue closes nothing.
\<close>

lemma io_pipe_step:
  assumes "io_pipe B pp w = (ret, pp', w')"
  shows "\<exists>new. calls w' = calls w @ new \<and>
     (ret = -1 \<or> ret = 0 \<or> ret = 1) \<and>
     closes_of new = (if ret = 0 then [] else [from_fd pp]) \<and>
     (ret \<noteq> 0 \<longrightarrow> last new = SysClose (from_fd pp) \<and> from_fd pp \<notin> read_fds_cpy w') \<and>
     (if pipe_datasize pp \<le> offset pp
      then \<exists>r. reads_of new = [r] \<and> hd new = SysRead r \<and>
             (r = 0 \<longrightarrow> ret = 1 \<and> sends_of new = []) \<and>
             (r = -1 \<longrightarrow> ret = -1 \<and> sends_of new = []) \<and>
             (0 < r \<longrightarrow> (\<exists>n. sends_of new = [n] \<and>
                            (n = -1 \<longrightarrow> ret = -1) \<and>
                            (n \<noteq> -1 \<longrightarrow> 0 \<le> n \<and> ret = 0 \<and> offset pp' = n)))
      else reads_of new = [] \<and>
           (\<exists>n. sends_of new = [n] \<and>
                 (n = -1 \<longrightarrow> ret = -1) \<and>
                 (n \<noteq> -1 \<longrightarrow> 0 \<le> n \<and> ret = 0 \<and> offset pp' = offset pp + n)))"
proof (cases "pipe_datasize pp \<le> offset pp")
  case False
  with assms have s: "io_pipe_send pp w = (ret, pp', w')" by (simp add: io_pipe_def)
  from io_pipe_send_cases [OF s] obtain n where
    c: "calls w' = calls w @ SysSend n # (if ret = 0 then [] else [SysClose (from_fd pp)])"
    and d: "n = -1 \<and> ret = -1 \<and> from_fd pp \<notin> read_fds_cpy w' \<or>
      0 \<le> n \<and> ret = 0 \<and> offset pp' = offset pp + n \<and> read_fds_cpy w' = read_fds_cpy w"
    by blast
  show ?thesis
    apply (rule exI [of _ "SysSend n # (if ret = 0 then [] else [SysClose (from_fd pp)])"])
    using c d False by auto
next
  case True
  obtain r bs f' where rd: "read (src_file w) (size_t B) = (r, bs, f')"
    by (metis prod_cases3)
  define pp1 where "pp1 = pp\<lparr>pipe_buf := store (pipe_buf pp) 0 bs, pipe_datasize := r\<rparr>"
  define w1 where "w1 = w\<lparr>src_file := f', calls := calls w @ [SysRead r]\<rparr>"
  from read_range [OF rd size_t_nonneg] consider "r = -1" | "r = 0" | "0 < r" by force
  then show ?thesis
  proof cases
    case 1
    with assms True rd show ?thesis
      by (intro exI [of _ "[SysRead r, SysClose (from_fd pp)]"])
         (auto simp: io_pipe_def Let_def close_def remove_read_fd_def)
  next
    case 2
    with assms True rd show ?thesis
      by (intro exI [of _ "[SysRead r, SysClose (from_fd pp)]"])
         (auto simp: io_pipe_def Let_def close_def remove_read_fd_def)
  next
    case 3
    with assms True rd have s: "io_pipe_send (pp1\<lparr>offset := 0\<rparr>) w1 = (ret, pp', w')"
      by (simp add: io_pipe_def Let_def pp1_def w1_def)
    from io_pipe_send_cases [OF s] obtain n where
      c: "calls w' = calls w1 @ SysSend n # (if ret = 0 then [] else [SysClose (from_fd pp)])"
      and d: "n = -1 \<and> ret = -1 \<and> from_fd pp \<notin> read_fds_cpy w' \<or>
        0 \<le> n \<and> ret = 0 \<and> offset pp' = n \<and> read_fds_cpy w' = read_fds_cpy w1"
      by (auto simp: pp1_def)
    show ?thesis
      apply (rule exI [of _ "SysRead r # SysSend n # (if ret = 0 then [] else [SysClose (from_fd pp)])"])
      using c d True 3 by (auto simp: w1_def)
  qed
qed

lemma io_pipe_step_example:
  "io_pipe 4 ((init_pipe 4)\<lparr>from_fd := 5\<rparr>)
     \<lparr>src_file = [Chunk ''abcdef''], dst_sock = [Accept 3], read_fds_cpy = {5}, calls = []\<rparr>
   = (0, \<lparr>from_fd = 5, pipe_buf = ''abcd'', offset = 3, pipe_datasize = 4\<rparr>,
      \<lparr>src_file = [Chunk ''ef''], dst_sock = [], read_fds_cpy = {5},
        calls = [SysRead 4, SysSend 3]\<rparr>) \<and>
   (\<exists>new. new = [SysRead 4, SysSend 3] \<and> closes_of new = [] \<and>
          reads_of new = [4] \<and> sends_of new = [3])"
proof -
  have e: "io_pipe 4 ((init_pipe 4)\<lparr>from_fd := 5\<rparr>)
     \<lparr>src_file = [Chunk ''abcdef''], dst_sock = [Accept 3], read_fds_cpy = {5}, calls = []\<rparr>
   = (0, \<lparr>from_fd = 5, pipe_buf = ''abcd'', offset = 3, pipe_datasize = 4\<rparr>,
      \<lparr>src_file = [Chunk ''ef''], dst_sock = [], read_fds_cpy = {5},
        calls = [SysRead 4, SysSend 3]\<rparr>)"
    by (simp add: io_pipe_def io_pipe_send_def init_pipe_def size_t_def store_def Let_def)
  from io_pipe_step [OF e] e show ?thesis
    by (simp add: init_pipe_def)
qed

text \<open>
  C8, at a \<open>send\<close> that would block: the scratch buffer holds unsent bytes and
  \<open>send\<close> returns \<open>-1\<close> with \<open>errno = EAGAIN\<close>. \<open>io_pipe\<close> does not read \<open>errno\<close>: it
  closes the source descriptor, removes it from the read set and returns Error
  (\<open>-1\<close>), and the rest of the file is never sent. A step that wrote no byte is
  to return Continue (0) and close nothing. On the same socket \<open>io_send\<close> leaves
  its loop and returns 0 bytes sent. The same holds for a step that has just
  refilled the scratch buffer.
\<close>

theorem io_pipe_would_block_closes_source:
  "io_pipe 4 \<lparr>from_fd = 5, pipe_buf = ''abcd'', offset = 1, pipe_datasize = 4\<rparr>
     \<lparr>src_file = [Chunk ''ef''], dst_sock = [SAgain], read_fds_cpy = {5}, calls = []\<rparr>
   = (-1, \<lparr>from_fd = 5, pipe_buf = ''abcd'', offset = 1, pipe_datasize = 4\<rparr>,
      \<lparr>src_file = [Chunk ''ef''], dst_sock = [], read_fds_cpy = {},
        calls = [SysSend (-1), SysClose 5]\<rparr>) \<and>
   io_send 4 [SAgain] \<lparr>buf = ''abcd'', bufsize = 4, datasize = 4, pos = 1\<rparr>
   = (0, [], \<lparr>buf = ''abcd'', bufsize = 4, datasize = 4, pos = 1\<rparr>) \<and>
   io_pipe 4 ((init_pipe 4)\<lparr>from_fd := 5\<rparr>)
     \<lparr>src_file = [Chunk ''abcdef''], dst_sock = [SAgain], read_fds_cpy = {5}, calls = []\<rparr>
   = (-1, \<lparr>from_fd = 5, pipe_buf = ''abcd'', offset = 0, pipe_datasize = 4\<rparr>,
      \<lparr>src_file = [Chunk ''ef''], dst_sock = [], read_fds_cpy = {},
        calls = [SysRead 4, SysSend (-1), SysClose 5]\<rparr>)"
  by code_simp

subsection \<open>Streaming a whole file\<close>

lemma chunks_pos: "r \<in> set (chunks c n) \<Longrightarrow> 0 < r"
proof (induction c n rule: chunks.induct)
  case (1 c n)
  then show ?case
    by (subst (asm) (2) chunks.simps) (auto split: if_splits)
qed

lemma length_chunks: "0 < c \<Longrightarrow> length (chunks c n) = (n + c - 1) div c"
proof (induction c n rule: chunks.induct)
  case (1 c n)
  show ?case
  proof (cases "n = 0")
    case True
    then show ?thesis using "1.prems" by (simp add: chunks.simps [of c 0])
  next
    case False
    with "1.prems" have ih: "length (chunks c (n - min c n)) = (n - min c n + c - 1) div c"
      using "1.IH" by simp
    show ?thesis
    proof (cases "n \<le> c")
      case True
      with False "1.prems" have "(n + c - 1) div c = 1"
        by (simp add: div_eq_dividend_iff Suc_leI le_div_geq)
      with True False "1.prems" ih show ?thesis
        by (simp add: chunks.simps [of c n] min_def)
    next
      case nle: False
      then have "n + c - 1 = (n - c + c - 1) + c" by simp
      then have "(n + c - 1) div c = Suc ((n - c + c - 1) div c)"
        using "1.prems" by (metis div_add_self2 less_numeral_extra(3) Suc_eq_plus1)
      with nle False "1.prems" ih show ?thesis
        by (simp add: chunks.simps [of c n] min_def)
    qed
  qed
qed

lemma io_pipe_send_accept:
  assumes "dst_sock w = Accept k # d" "0 \<le> pipe_datasize pp - offset pp"
  shows "io_pipe_send pp w =
     (0, pp\<lparr>offset := offset pp + min (int k) (pipe_datasize pp - offset pp)\<rparr>,
      w\<lparr>dst_sock := d, calls := calls w @ [SysSend (min (int k) (pipe_datasize pp - offset pp))]\<rparr>)"
proof -
  have "min (int k) (pipe_datasize pp - offset pp) \<noteq> -1"
    using assms(2) by (simp add: min_def)
  then show ?thesis
    using assms by (simp add: io_pipe_send_def size_t_id Let_def)
qed

lemma pipe_run_streams:
  assumes "0 < B"
    and "src_file w = [Chunk R] \<or> src_file w = [] \<and> R = []"
    and "dst_sock w = map Accept ks" "\<forall>k\<in>set ks. 0 < k"
    and "0 \<le> offset pp" "offset pp \<le> pipe_datasize pp" "pipe_datasize pp \<le> B"
    and "int (length R) + (pipe_datasize pp - offset pp) \<le> int (length ks)"
    and "int (length R) + (pipe_datasize pp - offset pp) < int fuel"
  shows "\<exists>j pp' w' new. pipe_run fuel B pp w = Some (replicate j 0 @ [1], pp', w') \<and>
           calls w' = calls w @ new @ [SysRead 0, SysClose (from_fd pp)] \<and>
           closes_of new = [] \<and> reads_of new = map int (chunks (nat B) (length R))"
  using assms
proof (induction fuel arbitrary: pp w R ks)
  case 0
  then show ?case by simp
next
  case (Suc fuel)
  note B = \<open>0 < B\<close>
  show ?case
  proof (cases "pipe_datasize pp \<le> offset pp")
    case ex: True
    with Suc.prems have p0: "pipe_datasize pp - offset pp = 0" by simp
    show ?thesis
    proof (cases "R = []")
      case True
      with Suc.prems(2) B have "read (src_file w) (size_t B) = (0, [], [])"
        by (auto simp: size_t_id Let_def)
      with ex have "io_pipe B pp w = (1, pp\<lparr>pipe_buf := store (pipe_buf pp) 0 [], pipe_datasize := 0\<rparr>,
          remove_read_fd (from_fd pp) (close (from_fd pp) (w\<lparr>src_file := [], calls := calls w @ [SysRead 0]\<rparr>)))"
        by (simp add: io_pipe_def Let_def)
      then show ?thesis
        using True
        by (intro exI [of _ 0] exI [of _ "[]"])
           (simp add: chunks.simps [of _ 0] close_def remove_read_fd_def)
    next
      case False
      with Suc.prems(2) have src: "src_file w = [Chunk R]" by simp
      define r where "r = min B (int (length R))"
      define R' where "R' = drop (nat r) R"
      have r: "0 < r" "r \<le> B" "r \<le> int (length R)" "nat r = min (nat B) (length R)"
        using False B by (auto simp: r_def min_def)
      define f' where "f' = (if r < int (length R) then [Chunk R'] else [])"
      have rd: "read (src_file w) (size_t B) = (r, take (nat r) R, f')"
        using src B by (simp add: size_t_id Let_def r_def f'_def R'_def)
      from False Suc.prems(8) p0 obtain k ks' where ks: "ks = k # ks'"
        by (cases ks) auto
      define pp1 where "pp1 = pp\<lparr>pipe_buf := store (pipe_buf pp) 0 (take (nat r) R),
          pipe_datasize := r, offset := 0\<rparr>"
      define w1 where "w1 = w\<lparr>src_file := f', calls := calls w @ [SysRead r]\<rparr>"
      define n where "n = min (int k) r"
      from ks Suc.prems(4) r have n: "0 < n" "n \<le> r" by (auto simp: n_def)
      define pp2 where "pp2 = pp1\<lparr>offset := n\<rparr>"
      define w2 where "w2 = w1\<lparr>dst_sock := map Accept ks', calls := calls w1 @ [SysSend n]\<rparr>"
      have "io_pipe_send pp1 w1 = (0, pp2, w2)"
        using io_pipe_send_accept [of w1 k "map Accept ks'" pp1] ks Suc.prems(3) r B
        by (simp add: pp1_def w1_def pp2_def w2_def n_def)
      with rd ex r have step: "io_pipe B pp w = (0, pp2, w2)"
        by (simp add: io_pipe_def Let_def pp1_def w1_def)
      have len: "int (length R') = int (length R) - r"
        using r by (simp add: R'_def)
      have a3: "src_file w2 = [Chunk R'] \<or> src_file w2 = [] \<and> R' = []"
        using r by (auto simp: w2_def w1_def f'_def R'_def)
      have "\<exists>j pp' w' new. pipe_run fuel B pp2 w2 = Some (replicate j 0 @ [1], pp', w') \<and>
           calls w' = calls w2 @ new @ [SysRead 0, SysClose (from_fd pp2)] \<and>
           closes_of new = [] \<and> reads_of new = map int (chunks (nat B) (length R'))"
      proof (rule Suc.IH [OF B a3, of ks'])
        show "dst_sock w2 = map Accept ks'" by (simp add: w2_def)
        show "\<forall>k\<in>set ks'. 0 < k" using Suc.prems(4) ks by simp
        show "0 \<le> offset pp2" "offset pp2 \<le> pipe_datasize pp2" "pipe_datasize pp2 \<le> B"
          using n r by (simp_all add: pp2_def pp1_def)
        show "int (length R') + (pipe_datasize pp2 - offset pp2) \<le> int (length ks')"
          using Suc.prems(8) p0 ks n len by (simp add: pp2_def pp1_def)
        show "int (length R') + (pipe_datasize pp2 - offset pp2) < int fuel"
          using Suc.prems(9) p0 n len by (simp add: pp2_def pp1_def)
      qed
      then obtain j pp' w' new where
        run: "pipe_run fuel B pp2 w2 = Some (replicate j 0 @ [1], pp', w')"
        and c: "calls w' = calls w2 @ new @ [SysRead 0, SysClose (from_fd pp2)]"
        and cl: "closes_of new = []"
        and rs: "reads_of new = map int (chunks (nat B) (length R'))"
        by blast
      have ch: "chunks (nat B) (length R) = nat r # chunks (nat B) (length R')"
        using False B r by (subst chunks.simps) (simp add: R'_def)
      show ?thesis
        apply (rule exI [of _ "Suc j"], rule exI [of _ pp'], rule exI [of _ w'])
        apply (rule exI [of _ "SysRead r # SysSend n # new"])
        using step run c cl rs ch r
        by (simp add: w2_def w1_def pp2_def pp1_def)
    qed
  next
    case False
    define p where "p = pipe_datasize pp - offset pp"
    with False have p: "0 < p" by simp
    with Suc.prems(8) obtain k ks' where ks: "ks = k # ks'"
      by (cases ks) (auto simp: p_def)
    define n where "n = min (int k) p"
    from ks Suc.prems(4) p have n: "0 < n" "n \<le> p" by (auto simp: n_def)
    define pp2 where "pp2 = pp\<lparr>offset := offset pp + n\<rparr>"
    define w2 where "w2 = w\<lparr>dst_sock := map Accept ks', calls := calls w @ [SysSend n]\<rparr>"
    have "io_pipe_send pp w = (0, pp2, w2)"
      using io_pipe_send_accept [of w k "map Accept ks'" pp] ks Suc.prems(3,5,6,7) B p
      by (simp add: pp2_def w2_def n_def p_def)
    with False have step: "io_pipe B pp w = (0, pp2, w2)"
      by (simp add: io_pipe_def)
    have a3: "src_file w2 = [Chunk R] \<or> src_file w2 = [] \<and> R = []"
      using Suc.prems(2) by (simp add: w2_def)
    have "\<exists>j pp' w' new. pipe_run fuel B pp2 w2 = Some (replicate j 0 @ [1], pp', w') \<and>
           calls w' = calls w2 @ new @ [SysRead 0, SysClose (from_fd pp2)] \<and>
           closes_of new = [] \<and> reads_of new = map int (chunks (nat B) (length R))"
    proof (rule Suc.IH [OF B a3, of ks'])
      show "dst_sock w2 = map Accept ks'" by (simp add: w2_def)
      show "\<forall>k\<in>set ks'. 0 < k" using Suc.prems(4) ks by simp
      show "0 \<le> offset pp2" "offset pp2 \<le> pipe_datasize pp2" "pipe_datasize pp2 \<le> B"
        using n Suc.prems(5,6,7) by (simp_all add: pp2_def p_def)
      show "int (length R) + (pipe_datasize pp2 - offset pp2) \<le> int (length ks')"
        using Suc.prems(8) ks n by (simp add: pp2_def p_def)
      show "int (length R) + (pipe_datasize pp2 - offset pp2) < int fuel"
        using Suc.prems(9) n by (simp add: pp2_def p_def)
    qed
    then obtain j pp' w' new where
      run: "pipe_run fuel B pp2 w2 = Some (replicate j 0 @ [1], pp', w')"
      and c: "calls w' = calls w2 @ new @ [SysRead 0, SysClose (from_fd pp2)]"
      and cl: "closes_of new = []"
      and rs: "reads_of new = map int (chunks (nat B) (length R))"
      by blast
    show ?thesis
      apply (rule exI [of _ "Suc j"], rule exI [of _ pp'], rule exI [of _ w'])
      apply (rule exI [of _ "SysSend n # new"])
      using step run c cl rs
      by (simp add: w2_def pp2_def)
  qed
qed

text \<open>
  C9: a source file of \<open>N = length file\<close> bytes, piped from a fresh \<open>pipe_t\<close> by
  repeated \<open>io_pipe\<close> steps, with a scratch buffer of \<open>BUFSIZE\<close> bytes
  (\<open>0 < BUFSIZE\<close>), every \<open>read\<close> returning as many bytes as fit and every
  \<open>send\<close> writing at least one byte. Given more than \<open>N\<close> steps the run ends: its
  return values are Continue (0) some number of times and then Done (1) once.
  The \<open>read\<close> calls of the run are \<open>ceil (N / BUFSIZE)\<close> reads that return bytes
  (the refills), followed by one last \<open>read\<close> that returns 0, the end of the file.
  The source descriptor is closed once, right after that last \<open>read\<close>, in the step
  that reports Done.
\<close>

theorem pipe_refill_count:
  assumes "0 < B"
    and "src_file w = [Chunk file]"
    and "dst_sock w = map Accept ks" "\<forall>k\<in>set ks. 0 < k" "length file \<le> length ks"
    and "length file < fuel"
  shows "\<exists>j pp' w' new rs.
           pipe_run fuel B ((init_pipe B)\<lparr>from_fd := fd\<rparr>) w = Some (replicate j 0 @ [1], pp', w') \<and>
           calls w' = calls w @ new @ [SysRead 0, SysClose fd] \<and>
           closes_of new = [] \<and> reads_of new = rs \<and> (\<forall>r\<in>set rs. 0 < r) \<and>
           length rs = (length file + nat B - 1) div nat B"
proof -
  have "\<exists>j pp' w' new. pipe_run fuel B ((init_pipe B)\<lparr>from_fd := fd\<rparr>) w = Some (replicate j 0 @ [1], pp', w') \<and>
           calls w' = calls w @ new @ [SysRead 0, SysClose (from_fd ((init_pipe B)\<lparr>from_fd := fd\<rparr>))] \<and>
           closes_of new = [] \<and> reads_of new = map int (chunks (nat B) (length file))"
    using assms by (intro pipe_run_streams [where ks = ks]) (simp_all add: init_pipe_def)
  then obtain j pp' w' new where
    "pipe_run fuel B ((init_pipe B)\<lparr>from_fd := fd\<rparr>) w = Some (replicate j 0 @ [1], pp', w')"
    "calls w' = calls w @ new @ [SysRead 0, SysClose fd]"
    "closes_of new = []" "reads_of new = map int (chunks (nat B) (length file))"
    by (auto simp: init_pipe_def)
  moreover have "\<forall>r\<in>set (map int (chunks (nat B) (length file))). 0 < r"
    by (auto dest: chunks_pos)
  moreover have "length (map int (chunks (nat B) (length file))) = (length file + nat B - 1) div nat B"
    using assms(1) by (simp add: length_chunks)
  ultimately show ?thesis by blast
qed

theorem pipe_refill_count_witness:
  "\<exists>j pp' w' new rs.
     pipe_run 11 4 ((init_pipe 4)\<lparr>from_fd := 5\<rparr>)
       \<lparr>src_file = [Chunk ''0123456789''], dst_sock = map Accept [3,3,3,3,3,3,3,3,3,3],
         read_fds_cpy = {5}, calls = []\<rparr> = Some (replicate j 0 @ [1], pp', w') \<and>
     calls w' = new @ [SysRead 0, SysClose 5] \<and>
     closes_of new = [] \<and> reads_of new = rs \<and> length rs = 3"
  using pipe_refill_count [of 4 "\<lparr>src_file = [Chunk ''0123456789''], dst_sock = map Accept [3,3,3,3,3,3,3,3,3,3],
         read_fds_cpy = {5}, calls = []\<rparr>" "''0123456789''" "[3,3,3,3,3,3,3,3,3,3]" 11 5]
  by simp blast

section \<open>Properties of the request parser\<close>

subsection \<open>The request line\<close>

text \<open>The words \<open>sscanf\<close> stores are the first three tokens of the line.\<close>

lemma skip_ws_eq: "skip_ws s = dropWhile isspace s"
  by (induction s) auto

lemma scan_word_eq: "scan_word s = (takeWhile (\<lambda>c. \<not> isspace c) s, dropWhile (\<lambda>c. \<not> isspace c) s)"
  by (induction s) auto

lemma scan_s_eq:
  "scan_s s = (case dropWhile isspace s of [] \<Rightarrow> None
     | t \<Rightarrow> Some (takeWhile (\<lambda>c. \<not> isspace c) t, dropWhile (\<lambda>c. \<not> isspace c) t))"
  unfolding scan_s_def skip_ws_eq scan_word_eq ..

lemma tokens_scan:
  "tokens s = (case scan_s s of None \<Rightarrow> [] | Some (w, r) \<Rightarrow> w # tokens r)"
proof (cases "dropWhile isspace s")
  case Nil
  have "tokens s = []"
    by (subst tokens.simps) (simp only: Nil list.case)
  moreover have "scan_s s = None"
    by (simp only: scan_s_eq Nil list.case)
  ultimately show ?thesis by simp
next
  case (Cons c cs)
  have "tokens s = takeWhile (\<lambda>c. \<not> isspace c) (c # cs) # tokens (dropWhile (\<lambda>c. \<not> isspace c) (c # cs))"
    by (subst tokens.simps) (simp only: Cons list.case)
  moreover have "scan_s s = Some (takeWhile (\<lambda>c. \<not> isspace c) (c # cs), dropWhile (\<lambda>c. \<not> isspace c) (c # cs))"
    by (simp only: scan_s_eq Cons list.case)
  ultimately show ?thesis by (simp only: option.case prod.case)
qed

lemma sscanf3_tokens:
  "sscanf3 line = (if tokens line = [] then -1 else int (min 3 (length (tokens line))),
                   take 3 (tokens line))"
proof (cases "scan_s line")
  case None
  then have "tokens line = []" by (simp only: tokens_scan [of line] option.case)
  with None show ?thesis by (simp add: sscanf3_def)
next
  case (Some p1)
  obtain a r1 where p1: "scan_s line = Some (a, r1)" using Some by (cases p1) simp
  then have t1: "tokens line = a # tokens r1"
    by (simp only: tokens_scan [of line] option.case prod.case)
  show ?thesis
  proof (cases "scan_s r1")
    case None
    then have "tokens r1 = []" by (simp only: tokens_scan [of r1] option.case)
    with None p1 t1 show ?thesis by (simp add: sscanf3_def)
  next
    case s2: (Some p2)
    obtain b r2 where p2: "scan_s r1 = Some (b, r2)" using s2 by (cases p2) simp
    then have t2: "tokens r1 = b # tokens r2"
      by (simp only: tokens_scan [of r1] option.case prod.case)
    show ?thesis
    proof (cases "scan_s r2")
      case None
      then have "tokens r2 = []" by (simp only: tokens_scan [of r2] option.case)
      with None p1 t1 p2 t2 show ?thesis by (simp add: sscanf3_def)
    next
      case s3: (Some p3)
      obtain c r3 where p3: "scan_s r2 = Some (c, r3)" using s3 by (cases p3) simp
      then have t3: "tokens r2 = c # tokens r3"
        by (simp only: tokens_scan [of r2] option.case prod.case)
      from p1 t1 p2 t2 p3 t3 show ?thesis by (simp add: sscanf3_def)
    qed
  qed
qed

lemma lower_lits: "map lower ''GET'' = ''get''" "map lower ''HEAD'' = ''head''" "map lower ''POST'' = ''post''"
  by code_simp+

lemma parse_request_line_sscanf:
  assumes "sscanf3 line = (n, ws)"
  shows "n < 3 \<Longrightarrow> fst (parse_request_line ver rq line) = BAD_REQUEST"
    and "\<not> n < 3 \<Longrightarrow> parse_request_line ver rq line =
       (if strcicmp (ws ! 0) ''GET'' \<noteq> 0 \<and> strcicmp (ws ! 0) ''HEAD'' \<noteq> 0 \<and>
           strcicmp (ws ! 0) ''POST'' \<noteq> 0 then METHOD_NOT_ALLOWED
        else if strcicmp (ws ! 2) ver \<noteq> 0 then HTTP_VERSION_NOT_SUPPORTED else 0,
        rq\<lparr>method := ws ! 0, uri := ws ! 1\<rparr>)"
  using assms by (simp_all add: parse_request_line_def Let_def)

lemma prl_short:
  assumes "length (tokens line) < 3"
  shows "fst (parse_request_line ver rq line) = BAD_REQUEST"
proof -
  define n where "n = (if tokens line = [] then -1 else int (min 3 (length (tokens line))))"
  have s: "sscanf3 line = (n, take 3 (tokens line))"
    by (simp add: sscanf3_tokens n_def)
  from assms have "n < 3" by (simp add: n_def)
  from parse_request_line_sscanf(1) [OF s this] show ?thesis .
qed

lemma strcicmp_eq: "(strcicmp a b \<noteq> 0) = (map lower a \<noteq> map lower b)"
  by (simp add: strcicmp_def)

lemma prl_long:
  assumes "\<not> length (tokens line) < 3"
  shows "parse_request_line ver rq line =
       (if \<not> allowed_method (tokens line ! 0) then METHOD_NOT_ALLOWED
        else if map lower (tokens line ! 2) \<noteq> map lower ver then HTTP_VERSION_NOT_SUPPORTED else 0,
        rq\<lparr>method := tokens line ! 0, uri := tokens line ! 1\<rparr>)"
proof -
  from assms have s: "sscanf3 line = (3, take 3 (tokens line))"
    by (auto simp: sscanf3_tokens)
  have e: "take 3 (tokens line) ! 0 = tokens line ! 0" "take 3 (tokens line) ! 1 = tokens line ! 1"
    "take 3 (tokens line) ! 2 = tokens line ! 2"
    by simp_all
  have n: "\<not> (3::int) < 3" by simp
  show ?thesis
    unfolding parse_request_line_sscanf(2) [OF s n] e strcicmp_eq allowed_method_def lower_lits
    by simp
qed

text \<open>
  C4, as stated, fails in its last part: the version is not stored in the request.
  \<open>parse_request_line\<close> scans the third word into a local array and only compares
  it. The request lines \<open>GET /x HTTP/1.1\<close> and \<open>GET /x http/1.1\<close> are both accepted
  and leave the same request, which holds the method and the URI and nothing of
  the version.
\<close>

theorem parse_request_line_version_counterexample:
  "parse_request_line ''HTTP/1.1''
     \<lparr>method = [], uri = [], headers = [], content_len = -1, body = None\<rparr> ''GET /x HTTP/1.1''
   = (0, \<lparr>method = ''GET'', uri = ''/x'', headers = [], content_len = -1, body = None\<rparr>) \<and>
   parse_request_line ''HTTP/1.1''
     \<lparr>method = [], uri = [], headers = [], content_len = -1, body = None\<rparr> ''GET /x http/1.1''
   = (0, \<lparr>method = ''GET'', uri = ''/x'', headers = [], content_len = -1, body = None\<rparr>)"
  by code_simp

text \<open>
  C4, amended: \<open>parse_request_line\<close> returns \<open>BAD_REQUEST\<close> (400) if the line has
  fewer than 3 white-space-separated tokens; otherwise \<open>METHOD_NOT_ALLOWED\<close> (405)
  if the first token is not, up to case, one of \<open>GET\<close>, \<open>HEAD\<close>, \<open>POST\<close>; otherwise
  \<open>HTTP_VERSION_NOT_SUPPORTED\<close> (505) if the third token does not equal the
  supported version up to case; otherwise 0. Whenever there are 3 tokens, the
  first is stored as the request's method and the second as its URI, and nothing
  else of the request changes: the version is compared, not stored.
\<close>

theorem parse_request_line_outcomes:
  "fst (parse_request_line ver rq line) =
     (if length (tokens line) < 3 then 400
      else if \<not> allowed_method (tokens line ! 0) then 405
      else if map lower (tokens line ! 2) \<noteq> map lower ver then 505
      else 0) \<and>
   (3 \<le> length (tokens line) \<longrightarrow>
      snd (parse_request_line ver rq line) =
        rq\<lparr>method := tokens line ! 0, uri := tokens line ! 1\<rparr>)"
proof (cases "length (tokens line) < 3")
  case True
  with prl_short [OF True, of ver rq] show ?thesis by (simp add: BAD_REQUEST_def)
next
  case False
  with prl_long [OF False, of ver rq] show ?thesis
    by (simp add: METHOD_NOT_ALLOWED_def HTTP_VERSION_NOT_SUPPORTED_def)
qed

theorem parse_request_line_outcomes_witness:
  "tokens ''GET /index.html HTTP/1.1'' = [''GET'', ''/index.html'', ''HTTP/1.1''] \<and>
   parse_request_line ''HTTP/1.1''
     \<lparr>method = [], uri = [], headers = [], content_len = -1, body = None\<rparr>
     ''GET /index.html HTTP/1.1''
   = (0, \<lparr>method = ''GET'', uri = ''/index.html'', headers = [], content_len = -1,
          body = None\<rparr>) \<and>
   fst (parse_request_line ''HTTP/1.1''
     \<lparr>method = [], uri = [], headers = [], content_len = -1, body = None\<rparr> ''GET /x'') = 400 \<and>
   fst (parse_request_line ''HTTP/1.1''
     \<lparr>method = [], uri = [], headers = [], content_len = -1, body = None\<rparr>
     ''PUT /x HTTP/1.1'') = 405"
proof -
  have t: "tokens ''GET /index.html HTTP/1.1'' = [''GET'', ''/index.html'', ''HTTP/1.1'']"
    "tokens ''GET /x'' = [''GET'', ''/x'']"
    "tokens ''PUT /x HTTP/1.1'' = [''PUT'', ''/x'', ''HTTP/1.1'']"
    by code_simp+
  have a: "allowed_method ''GET''" "\<not> allowed_method ''PUT''"
    by code_simp+
  from parse_request_line_outcomes [of "''HTTP/1.1''"
      "\<lparr>method = [], uri = [], headers = [], content_len = -1, body = None\<rparr>"
      "''GET /index.html HTTP/1.1''"]
    parse_request_line_outcomes [of "''HTTP/1.1''"
      "\<lparr>method = [], uri = [], headers = [], content_len = -1, body = None\<rparr>" "''GET /x''"]
    parse_request_line_outcomes [of "''HTTP/1.1''"
      "\<lparr>method = [], uri = [], headers = [], content_len = -1, body = None\<rparr>"
      "''PUT /x HTTP/1.1''"]
  show ?thesis
    by (simp add: t a prod_eq_iff)
qed

subsection \<open>Header lines\<close>

text \<open>
  The loop of \<open>copy_trimmed_string\<close> moves \<open>head\<close> and \<open>tail\<close> inwards over spaces
  only: what it leaves is the segment without its leading and trailing spaces.
\<close>

lemma trim_Nil [simp]: "trim [] = []"
  by (simp add: trim_def)

lemma trim_space_Cons: "trim (CHR '' '' # xs) = trim xs"
  by (simp add: trim_def)

lemma trim_space_snoc: "trim (xs @ [CHR '' '']) = trim xs"
proof (cases "\<forall>x\<in>set xs. x = CHR '' ''")
  case True
  then have "dropWhile (\<lambda>c. c = CHR '' '') xs = []"
    "dropWhile (\<lambda>c. c = CHR '' '') (xs @ [CHR '' '']) = []" by simp_all
  then show ?thesis by (simp only: trim_def rev.simps dropWhile.simps)
next
  case False
  then obtain x where "x \<in> set xs" "\<not> x = CHR '' ''" by blast
  then have "dropWhile (\<lambda>c. c = CHR '' '') (xs @ [CHR '' '']) = dropWhile (\<lambda>c. c = CHR '' '') xs @ [CHR '' '']"
    by (rule dropWhile_append1)
  then show ?thesis by (simp add: trim_def)
qed

lemma trim_id:
  assumes "xs \<noteq> []" "hd xs \<noteq> CHR '' ''" "last xs \<noteq> CHR '' ''"
  shows "trim xs = xs"
proof -
  from assms have "dropWhile (\<lambda>c. c = CHR '' '') xs = xs"
    by (cases xs) auto
  moreover from assms have "dropWhile (\<lambda>c. c = CHR '' '') (rev xs) = rev xs"
    by (cases "rev xs") (auto simp: last_rev hd_rev)
  ultimately show ?thesis by (simp add: trim_def)
qed

lemma sub_empty: "t < h \<Longrightarrow> sub s h t = []"
  by (simp add: sub_def)

lemma sub_Cons:
  assumes "0 \<le> h" "h \<le> t" "t < int (length s)"
  shows "sub s h t = s ! nat h # sub s (h + 1) t"
proof -
  from assms have "nat h < length s" by simp
  then have "drop (nat h) s = s ! nat h # drop (Suc (nat h)) s"
    by (simp add: Cons_nth_drop_Suc)
  moreover from assms have "nat (t - h + 1) = Suc (nat (t - (h + 1) + 1))" by simp
  moreover from assms have "nat (h + 1) = Suc (nat h)" by simp
  ultimately show ?thesis by (simp add: sub_def)
qed

lemma sub_snoc:
  assumes "0 \<le> h" "h \<le> t" "t < int (length s)"
  shows "sub s h t = sub s h (t - 1) @ [s ! nat t]"
proof -
  from assms have n: "nat (t - h + 1) = Suc (nat (t - h))" "nat (t - h) < length (drop (nat h) s)"
    "nat h + nat (t - h) = nat t"
    by auto
  have "take (Suc (nat (t - h))) (drop (nat h) s)
      = take (nat (t - h)) (drop (nat h) s) @ [drop (nat h) s ! nat (t - h)]"
    using n(2) by (rule take_Suc_conv_app_nth)
  moreover have "drop (nat h) s ! nat (t - h) = s ! nat t"
    using n(2,3) by simp
  ultimately show ?thesis using n(1) by (simp add: sub_def)
qed

lemma sub_hd_last:
  assumes "0 \<le> h" "h \<le> t" "t < int (length s)"
  shows "sub s h t \<noteq> []" "hd (sub s h t) = s ! nat h" "last (sub s h t) = s ! nat t"
proof -
  show "sub s h t \<noteq> []" "hd (sub s h t) = s ! nat h"
    using sub_Cons [OF assms] by simp_all
  show "last (sub s h t) = s ! nat t"
    using sub_snoc [OF assms] by simp
qed

lemma trim_loop_correct:
  assumes "0 \<le> h" "t < int (length s)"
  shows "case trim_loop s h t of (h', t') \<Rightarrow>
           (if h' \<le> t' then 0 \<le> h' \<and> t' < int (length s) \<and> sub s h' t' = trim (sub s h t)
            else trim (sub s h t) = [])"
  using assms
proof (induction s h t rule: trim_loop.induct)
  case (1 s h t)
  show ?case
  proof (cases "h \<le> t")
    case False
    then show ?thesis by (simp add: trim_loop.simps [of s h t] sub_empty)
  next
    case True
    note r = "1.prems"(1) True "1.prems"(2)
    show ?thesis
    proof (cases "s ! nat h \<noteq> CHR '' '' \<and> s ! nat t \<noteq> CHR '' ''")
      case both: True
      with sub_hd_last [OF r] have "trim (sub s h t) = sub s h t"
        by (intro trim_id) simp_all
      with True both r show ?thesis by (simp add: trim_loop.simps [of s h t])
    next
      case nb: False
      define h1 where "h1 = (if s ! nat h = CHR '' '' then h + 1 else h)"
      define t1 where "t1 = (if s ! nat t = CHR '' '' then t - 1 else t)"
      have step: "trim_loop s h t = trim_loop s h1 t1"
        by (simp only: trim_loop.simps [of s h t] True nb if_True if_False h1_def t1_def)
      have b: "0 \<le> h1" "t1 < int (length s)" using r by (auto simp: h1_def t1_def)
      have eq: "trim (sub s h1 t1) = trim (sub s h t)"
      proof (cases "s ! nat h = CHR '' ''")
        case hs: True
        show ?thesis
        proof (cases "s ! nat t = CHR '' ''")
          case ts: True
          show ?thesis
          proof (cases "h = t")
            case True
            with hs sub_Cons [OF r] have "sub s h t = [CHR '' '']" by (simp add: sub_empty)
            moreover from True hs ts have "sub s h1 t1 = []" by (simp add: h1_def t1_def sub_empty)
            ultimately show ?thesis by (simp add: trim_space_Cons)
          next
            case False
            with r have r': "0 \<le> h + 1" "h + 1 \<le> t" "t < int (length s)" by simp_all
            have "sub s h t = CHR '' '' # sub s (h + 1) t" using sub_Cons [OF r] hs by simp
            also have "sub s (h + 1) t = sub s (h + 1) (t - 1) @ [CHR '' '']"
              using sub_snoc [OF r'] ts by simp
            finally show ?thesis using hs ts
              by (simp add: h1_def t1_def trim_space_Cons trim_space_snoc)
          qed
        next
          case False
          with hs sub_Cons [OF r] show ?thesis
            by (simp add: h1_def t1_def trim_space_Cons)
        qed
      next
        case False
        with nb have ts: "s ! nat t = CHR '' ''" by simp
        with False sub_snoc [OF r] show ?thesis
          by (simp add: h1_def t1_def trim_space_snoc)
      qed
      from "1.IH" [OF True nb b [unfolded h1_def t1_def]]
      have "case trim_loop s h1 t1 of (h', t') \<Rightarrow>
           (if h' \<le> t' then 0 \<le> h' \<and> t' < int (length s) \<and> sub s h' t' = trim (sub s h1 t1)
            else trim (sub s h1 t1) = [])"
        by (simp only: h1_def t1_def)
      then show ?thesis by (simp only: step eq)
    qed
  qed
qed

lemma copy_trimmed_string_eq:
  assumes "0 \<le> h" "t < int (length s)"
  shows "copy_trimmed_string s h t =
     (if trim (sub s h t) = [] then None else Some (trim (sub s h t)))"
proof -
  obtain h' t' where l: "trim_loop s h t = (h', t')" by (cases "trim_loop s h t")
  from trim_loop_correct [OF assms] l
  have c: "if h' \<le> t' then 0 \<le> h' \<and> t' < int (length s) \<and> sub s h' t' = trim (sub s h t)
            else trim (sub s h t) = []" by simp
  show ?thesis
  proof (cases "h' \<le> t'")
    case True
    with c have "sub s h' t' = trim (sub s h t)" "sub s h' t' \<noteq> []"
      using sub_hd_last(1) [of h' t' s] by auto
    with True l show ?thesis by (simp add: copy_trimmed_string_def sub_def)
  next
    case False
    with c l show ?thesis by (simp add: copy_trimmed_string_def)
  qed
qed

lemma strchr_None: "strchr s c = None \<longleftrightarrow> c \<notin> set s"
  by (induction s) auto

lemma strchr_Some:
  "strchr s c = Some k \<Longrightarrow>
     k < length s \<and> takeWhile (\<lambda>x. x \<noteq> c) s = take k s \<and> dropWhile (\<lambda>x. x \<noteq> c) s = drop k s"
proof (induction s arbitrary: k)
  case Nil
  then show ?case by simp
next
  case (Cons x xs)
  show ?case
  proof (cases "x = c")
    case True
    with Cons.prems show ?thesis by simp
  next
    case False
    with Cons.prems obtain j where "strchr xs c = Some j" "k = Suc j" by auto
    with Cons.IH [of j] False show ?thesis by simp
  qed
qed

text \<open>What \<open>parse_header\<close> returns, by cases on the line.\<close>

lemma parse_header_eq:
  "parse_header rq line =
     (if CHR '':'' \<notin> set line \<or>
         takeWhile (\<lambda>c. c \<noteq> CHR '':'') line = [] \<or>
         tl (dropWhile (\<lambda>c. c \<noteq> CHR '':'') line) = [] \<or>
         header_key line = [] \<or> header_val line = []
      then (-1, rq)
      else (0, rq\<lparr>headers := (header_key line, header_val line) # headers rq\<rparr>))"
proof (cases "strchr line (CHR '':'')")
  case None
  then have "CHR '':'' \<notin> set line" by (simp add: strchr_None)
  with None show ?thesis by (simp add: parse_header_def)
next
  case (Some k)
  from strchr_Some [OF Some] have k: "k < length line"
    and tw: "takeWhile (\<lambda>c. c \<noteq> CHR '':'') line = take k line"
    and dw: "dropWhile (\<lambda>c. c \<noteq> CHR '':'') line = drop k line"
    by simp_all
  from Some have mem: "CHR '':'' \<in> set line"
    using strchr_None [of line "CHR '':''"] by simp
  have tlv: "tl (drop k line) = drop (Suc k) line" by (simp add: drop_Suc tl_drop)
  show ?thesis
  proof (cases "k + 1 = length line \<or> k = 0")
    case True
    then have "take k line = [] \<or> drop (Suc k) line = []" using k by auto
    with True Some mem show ?thesis
      by (auto simp: parse_header_def tw dw tlv)
  next
    case False
    with k have b: "take k line \<noteq> []" "drop (Suc k) line \<noteq> []" by auto
    have keyr: "sub line 0 (int k - 1) = take k line"
      by (simp add: sub_def)
    have "nat (int (length line) - 1 - (int k + 1) + 1) = length line - Suc k" by simp
    moreover have "nat (int k + 1) = Suc k" by simp
    ultimately have valr: "sub line (int k + 1) (int (length line) - 1) = drop (Suc k) line"
      by (simp add: sub_def)
    have ck: "copy_trimmed_string line 0 (int k - 1) =
        (if header_key line = [] then None else Some (header_key line))"
      using k by (subst copy_trimmed_string_eq) (simp_all add: keyr header_key_def tw)
    have cv: "copy_trimmed_string line (int k + 1) (int (length line) - 1) =
        (if header_val line = [] then None else Some (header_val line))"
      by (subst copy_trimmed_string_eq) (simp_all add: valr header_val_def dw tlv)
    from False Some mem b show ?thesis
      by (simp add: parse_header_def ck cv tw dw tlv)
  qed
qed

text \<open>
  C6: \<open>parse_header\<close> rejects a line (returns \<open>-1\<close> and leaves the request as it
  is) exactly when the line has no \<open>:\<close>, or its first \<open>:\<close> is the very first or the
  very last character (nothing before it, nothing after it), or the key or the
  value is empty once trimmed; otherwise it returns 0 and puts the trimmed key
  and the trimmed value in front of the header list. Trimming (\<open>trim\<close>) removes
  leading and trailing ASCII spaces and no other character.
\<close>

theorem parse_header_valid:
  "parse_header rq line =
     (if CHR '':'' \<notin> set line \<or>
         takeWhile (\<lambda>c. c \<noteq> CHR '':'') line = [] \<or>
         tl (dropWhile (\<lambda>c. c \<noteq> CHR '':'') line) = [] \<or>
         header_key line = [] \<or> header_val line = []
      then (-1, rq)
      else (0, rq\<lparr>headers := (header_key line, header_val line) # headers rq\<rparr>))"
  by (rule parse_header_eq)

theorem parse_header_valid_witness:
  "parse_header \<lparr>method = [], uri = [], headers = [], content_len = -1, body = None\<rparr>
     ''Content-Length: 10''
   = (0, \<lparr>method = [], uri = [], headers = [(''Content-Length'', ''10'')],
          content_len = -1, body = None\<rparr>) \<and>
   fst (parse_header \<lparr>method = [], uri = [], headers = [], content_len = -1, body = None\<rparr>
     '': 10'') = -1 \<and>
   fst (parse_header \<lparr>method = [], uri = [], headers = [], content_len = -1, body = None\<rparr>
     ''X:'') = -1 \<and>
   fst (parse_header \<lparr>method = [], uri = [], headers = [], content_len = -1, body = None\<rparr>
     ''X:   '') = -1 \<and>
   parse_header \<lparr>method = [], uri = [], headers = [], content_len = -1, body = None\<rparr>
     [CHR ''K'', CHR '':'', CHR 0x09, CHR ''v'', CHR '' '']
   = (0, \<lparr>method = [], uri = [], headers = [(''K'', [CHR 0x09, CHR ''v''])],
          content_len = -1, body = None\<rparr>)"
proof -
  have k: "header_key ''Content-Length: 10'' = ''Content-Length''"
    "header_val ''Content-Length: 10'' = ''10''"
    "header_key [CHR ''K'', CHR '':'', CHR 0x09, CHR ''v'', CHR '' ''] = ''K''"
    "header_val [CHR ''K'', CHR '':'', CHR 0x09, CHR ''v'', CHR '' ''] = [CHR 0x09, CHR ''v'']"
    "header_val ''X:   '' = []"
    by (simp_all add: header_key_def header_val_def trim_def)
  from parse_header_valid [of "\<lparr>method = [], uri = [], headers = [], content_len = -1, body = None\<rparr>"
      "''Content-Length: 10''"]
    parse_header_valid [of "\<lparr>method = [], uri = [], headers = [], content_len = -1, body = None\<rparr>"
      "'': 10''"]
    parse_header_valid [of "\<lparr>method = [], uri = [], headers = [], content_len = -1, body = None\<rparr>"
      "''X:''"]
    parse_header_valid [of "\<lparr>method = [], uri = [], headers = [], content_len = -1, body = None\<rparr>"
      "''X:   ''"]
    parse_header_valid [of "\<lparr>method = [], uri = [], headers = [], content_len = -1, body = None\<rparr>"
      "[CHR ''K'', CHR '':'', CHR 0x09, CHR ''v'', CHR '' '']"]
  show ?thesis
    by (simp add: k)
qed

subsection \<open>The order of the header list\<close>

lemma parse_header_prepends:
  "parse_header rq l = (0, rq') \<Longrightarrow>
     rq' = rq\<lparr>headers := (header_key l, header_val l) # headers rq\<rparr>"
  using parse_header_eq [of rq l] by (simp split: if_splits)

lemma parse_headers_rev:
  "parse_headers rq ls = Some rq' \<Longrightarrow>
     rq' = rq\<lparr>headers := rev (map (\<lambda>l. (header_key l, header_val l)) ls) @ headers rq\<rparr>"
proof (induction ls arbitrary: rq)
  case Nil
  then show ?case by simp
next
  case (Cons l ls)
  obtain ret r1 where p: "parse_header rq l = (ret, r1)" by (cases "parse_header rq l")
  with Cons.prems have z: "ret = 0" and t: "parse_headers r1 ls = Some rq'"
    by (auto split: if_splits)
  from p z have "r1 = rq\<lparr>headers := (header_key l, header_val l) # headers rq\<rparr>"
    by (auto dest: parse_header_prepends)
  with Cons.IH [OF t] show ?case by simp
qed

lemma map_of_rev_last:
  "map_of (rev (map (\<lambda>l. (f l, g l)) ls) @ hs) k =
     (case filter (\<lambda>l. f l = k) ls of [] \<Rightarrow> map_of hs k | xs \<Rightarrow> Some (g (last xs)))"
proof (induction ls arbitrary: hs)
  case Nil
  then show ?case by simp
next
  case (Cons l ls)
  have "map_of (rev (map (\<lambda>l. (f l, g l)) (l # ls)) @ hs) k
      = map_of (rev (map (\<lambda>l. (f l, g l)) ls) @ ((f l, g l) # hs)) k"
    by simp
  also have "\<dots> = (case filter (\<lambda>l. f l = k) ls of [] \<Rightarrow> map_of ((f l, g l) # hs) k
      | xs \<Rightarrow> Some (g (last xs)))"
    by (rule Cons.IH)
  also have "\<dots> = (case filter (\<lambda>l. f l = k) (l # ls) of [] \<Rightarrow> map_of hs k
      | xs \<Rightarrow> Some (g (last xs)))"
    by (simp split: list.splits)
  finally show ?case .
qed

text \<open>
  C7: when the lines \<open>ls\<close> are parsed one after the other and all parse, each entry
  has been put in front of the list, so the list holds the new entries in reverse
  parse order before the entries it had; and a lookup that returns the first
  matching entry (\<open>get_request_header\<close>) returns, for a key that occurs among the
  lines, the value of the last line with that key.
\<close>

theorem header_list_reverse_order:
  assumes "parse_headers rq ls = Some rq'"
  shows "headers rq' = rev (map (\<lambda>l. (header_key l, header_val l)) ls) @ headers rq \<and>
     get_request_header rq' k =
       (case filter (\<lambda>l. header_key l = k) ls of
          [] \<Rightarrow> get_request_header rq k
        | xs \<Rightarrow> Some (header_val (last xs)))"
proof -
  from parse_headers_rev [OF assms]
  have h: "headers rq' = rev (map (\<lambda>l. (header_key l, header_val l)) ls) @ headers rq"
    by simp
  show ?thesis
    unfolding get_request_header.simps h map_of_rev_last by simp
qed

theorem header_list_reverse_order_witness:
  "parse_headers \<lparr>method = [], uri = [], headers = [], content_len = -1, body = None\<rparr>
     [''Host: a'', ''X: 1'', ''X: 2'']
   = Some \<lparr>method = [], uri = [], headers = [(''X'', ''2''), (''X'', ''1''), (''Host'', ''a'')],
           content_len = -1, body = None\<rparr> \<and>
   get_request_header
     \<lparr>method = [], uri = [], headers = [(''X'', ''2''), (''X'', ''1''), (''Host'', ''a'')],
           content_len = -1, body = None\<rparr> ''X'' = Some ''2''"
proof -
  have p: "parse_headers \<lparr>method = [], uri = [], headers = [], content_len = -1, body = None\<rparr>
     [''Host: a'', ''X: 1'', ''X: 2'']
   = Some \<lparr>method = [], uri = [], headers = [(''X'', ''2''), (''X'', ''1''), (''Host'', ''a'')],
           content_len = -1, body = None\<rparr>"
    by code_simp
  from header_list_reverse_order [OF p, of "''X''"] p show ?thesis
    by simp
qed

section \<open>Properties of \<open>http_parse\<close>\<close>

subsection \<open>Input appended to the buffer\<close>

lemma strchr_append_Some: "strchr u x = Some k \<Longrightarrow> strchr (u @ q) x = Some k"
  by (induction u arbitrary: k) (auto split: if_splits)

lemma strchr_lt: "strchr s x = Some k \<Longrightarrow> k < length s"
  by (induction s arbitrary: k) (auto split: if_splits)

lemma nat_facts:
  assumes "0 \<le> (d::int)" "d \<le> int n"
  shows "min n (nat d) = nat d" "nat (d + int k) = nat d + k" "nat d \<le> n"
  using assms by auto

lemma received_feed: "buf_ok (cin c) \<Longrightarrow> received (cin (feed q c)) = received (cin c) @ q"
proof -
  assume "buf_ok (cin c)"
  then have "0 \<le> datasize (cin c)" "datasize (cin c) \<le> int (length (buf (cin c)))"
    by (auto simp: buf_ok_def)
  from nat_facts [OF this] show ?thesis
    by (simp add: feed_def received_def)
qed

lemma unread_received:
  "0 \<le> pos bp \<Longrightarrow> unread bp = drop (nat (pos bp)) (received bp)"
proof -
  assume "0 \<le> pos bp"
  then have "nat (pos bp) + nat (datasize bp - pos bp) = nat (datasize bp) \<or> datasize bp < pos bp"
    by auto
  moreover have "nat (datasize bp - pos bp) = nat (datasize bp) - nat (pos bp)"
    using \<open>0 \<le> pos bp\<close> by (simp add: nat_diff_distrib)
  ultimately show ?thesis
    by (auto simp: unread_def received_def drop_take)
qed

lemma unread_feed:
  assumes "buf_ok (cin c)"
  shows "unread (cin (feed q c)) = unread (cin c) @ q"
proof -
  from assms have p: "0 \<le> pos (cin c)" "nat (pos (cin c)) \<le> length (received (cin c))"
    by (auto simp: buf_ok_def received_def)
  have "unread (cin (feed q c)) = drop (nat (pos (cin c))) (received (cin (feed q c)))"
    using p(1) by (subst unread_received) (simp_all add: feed_def)
  also have "\<dots> = drop (nat (pos (cin c))) (received (cin c)) @ q"
    using p(2) by (simp add: received_feed [OF assms])
  finally show ?thesis using p(1) by (simp add: unread_received)
qed

lemma buf_ok_feed: "buf_ok (cin c) \<Longrightarrow> buf_ok (cin (feed q c))"
  by (auto simp: buf_ok_def feed_def received_def)

lemma feed_feed: "buf_ok (cin c) \<Longrightarrow> feed q (feed p c) = feed (p @ q) c"
proof -
  assume a: "buf_ok (cin c)"
  have "received (cin (feed p c)) @ q = received (cin c) @ p @ q"
    by (simp add: received_feed [OF a])
  then show ?thesis
    by (simp add: feed_def add.assoc)
qed

lemma feed_req [simp]: "req (feed q c) = req c" "out (feed q c) = out c"
  by (simp_all add: feed_def)

lemma feed_upd:
  "feed q (c\<lparr>req := x\<rparr>) = (feed q c)\<lparr>req := x\<rparr>"
  "feed q (c\<lparr>out := y\<rparr>) = (feed q c)\<lparr>out := y\<rparr>"
  "feed q (c\<lparr>status := z\<rparr>) = (feed q c)\<lparr>status := z\<rparr>"
  "feed q (c\<lparr>pipe := v\<rparr>) = (feed q c)\<lparr>pipe := v\<rparr>"
  "feed q (c\<lparr>closed := w\<rparr>) = (feed q c)\<lparr>closed := w\<rparr>"
  by (simp_all add: feed_def)

lemma feed_pos:
  "feed q (c\<lparr>cin := (cin c)\<lparr>pos := p\<rparr>\<rparr>) = (feed q c)\<lparr>cin := (cin (feed q c))\<lparr>pos := p\<rparr>\<rparr>"
  by (simp add: feed_def received_def)

lemma readline_cases:
  obtains (ready) k where "strchr (unread (cin c)) (CHR 0x0A) = Some k" "k < m"
      "client_readline m c = (int k + 1, cstr (chomp (take k (unread (cin c)))),
          c\<lparr>cin := (cin c)\<lparr>pos := pos (cin c) + int k + 1\<rparr>\<rparr>)"
    | (not_ready) n l where "client_readline m c = (n, l, c)" "n \<le> 0"
proof (cases "strchr (unread (cin c)) (CHR 0x0A)")
  case None
  then have "client_readline m c = (if m \<le> length (unread (cin c)) then -1 else 0,
      if m \<le> length (unread (cin c)) then cstr (take (m - 1) (unread (cin c))) else [], c)"
    by (simp add: client_readline_def Let_def)
  then show ?thesis by (intro not_ready) auto
next
  case (Some k)
  show ?thesis
  proof (cases "m \<le> k")
    case True
    with Some have "client_readline m c = (-1, cstr (take (m - 1) (unread (cin c))), c)"
      by (simp add: client_readline_def Let_def)
    then show ?thesis by (intro not_ready) auto
  next
    case False
    with Some show ?thesis by (intro ready [of k]) (simp_all add: client_readline_def Let_def)
  qed
qed

lemma readline_feed:
  assumes "buf_ok (cin c)" "client_readline m c = (n, l, c1)" "0 < n"
  shows "client_readline m (feed q c) = (n, l, feed q c1)"
proof (cases rule: readline_cases [where c = c and m = m])
  case (ready k)
  from ready(1) have "strchr (unread (cin c) @ q) (CHR 0x0A) = Some k"
    by (rule strchr_append_Some)
  moreover from ready(1) have "k < length (unread (cin c))" by (rule strchr_lt)
  ultimately have "client_readline m (feed q c) =
      (int k + 1, cstr (chomp (take k (unread (cin c)))),
       (feed q c)\<lparr>cin := (cin (feed q c))\<lparr>pos := pos (cin (feed q c)) + int k + 1\<rparr>\<rparr>)"
    using ready(2) by (simp add: client_readline_def Let_def unread_feed [OF assms(1)])
  moreover have "pos (cin (feed q c)) = pos (cin c)" by (simp add: feed_def)
  ultimately show ?thesis using ready(3) assms(2) by (simp add: feed_pos)
next
  case (not_ready n' l')
  with assms show ?thesis by simp
qed

lemma readline_buf_ok:
  assumes "buf_ok (cin c)" "client_readline m c = (n, l, c1)"
  shows "buf_ok (cin c1) \<and> req c1 = req c \<and> out c1 = out c \<and> pos (cin c) \<le> pos (cin c1)"
proof (cases rule: readline_cases [where c = c and m = m])
  case (ready k)
  from ready(1) have "k < length (unread (cin c))" by (rule strchr_lt)
  moreover have "length (unread (cin c)) \<le> nat (datasize (cin c) - pos (cin c))"
    by (simp add: unread_def)
  ultimately have "int k + 1 \<le> datasize (cin c) - pos (cin c)" by simp
  with ready(3) assms show ?thesis by (auto simp: buf_ok_def)
next
  case (not_ready n' l')
  with assms show ?thesis by simp
qed

subsection \<open>Unfolding parse_rest\<close>

lemma parse_rest_body:
  "req c = Some r \<Longrightarrow> content_len r \<noteq> -1 \<Longrightarrow> parse_rest e c ret = read_body c"
  by (simp add: parse_rest_def read_headers.simps [of e c ret])

lemma read_body_headers_open:
  "req c = Some r \<Longrightarrow> content_len r = -1 \<Longrightarrow> read_body c = (0, c)"
  by (simp add: read_body_def)

lemma parse_rest_not_ready:
  "req c = Some r \<Longrightarrow> content_len r = -1 \<Longrightarrow> client_readline (MAXBUF e) c = (n, l, c') \<Longrightarrow>
   n \<le> 0 \<Longrightarrow> parse_rest e c ret = (0, c)"
  by (simp add: parse_rest_def read_headers.simps [of e c ret] read_body_headers_open)

lemma parse_rest_blank:
  "req c = Some r \<Longrightarrow> content_len r = -1 \<Longrightarrow> client_readline (MAXBUF e) c = (n, [], c') \<Longrightarrow>
   0 < n \<Longrightarrow>
   parse_rest e c ret = (case header_end e c' r ret of Inl x \<Rightarrow> x | Inr c'' \<Rightarrow> read_body c'')"
  by (simp add: parse_rest_def read_headers.simps [of e c ret])

lemma parse_rest_bad_header:
  "req c = Some r \<Longrightarrow> content_len r = -1 \<Longrightarrow> client_readline (MAXBUF e) c = (n, l, c') \<Longrightarrow>
   0 < n \<Longrightarrow> l \<noteq> [] \<Longrightarrow> parse_header r l = (-1, r') \<Longrightarrow>
   parse_rest e c ret = end_request (c'\<lparr>req := Some r'\<rparr>) BAD_REQUEST"
  by (simp add: parse_rest_def read_headers.simps [of e c ret])

lemma parse_rest_header:
  "req c = Some r \<Longrightarrow> content_len r = -1 \<Longrightarrow> client_readline (MAXBUF e) c = (n, l, c') \<Longrightarrow>
   0 < n \<Longrightarrow> l \<noteq> [] \<Longrightarrow> parse_header r l = (x, r') \<Longrightarrow> x \<noteq> -1 \<Longrightarrow>
   parse_rest e c ret = parse_rest e (c'\<lparr>req := Some r'\<rparr>) x"
  by (simp add: parse_rest_def read_headers.simps [of e c ret])

subsection \<open>What the handlers leave alone\<close>

lemma end_request_None: "end_request c code = (x, c') \<Longrightarrow> req c' = None \<and> x = -1"
  by (auto simp: end_request_def deinit_request_def)

lemma finish_None: "finish c r ret = (x, c') \<Longrightarrow> req c' = None"
  by (auto simp: finish_def deinit_request_def dest: end_request_None split: if_splits)

lemma read_body_waits:
  assumes "read_body c = (x, c1)" "req c1 \<noteq> None"
  shows "c1 = c \<and> x = 0"
  using assms
  by (auto simp: read_body_def Let_def handle_post_def split: option.splits if_splits
      dest: finish_None)

lemma end_request_feed: "end_request (feed q c) code = apsnd (feed q) (end_request c code)"
  by (simp add: end_request_def deinit_request_def feed_def)

lemma finish_feed: "finish (feed q c) r ret = apsnd (feed q) (finish c r ret)"
  by (simp add: finish_def end_request_feed) (simp add: deinit_request_def feed_def)

lemma internal_handler_feed:
  "internal_handler e (feed q c) r fl = apsnd (feed q) (internal_handler e c r fl)"
  by (simp add: internal_handler_def Let_def feed_def split: prod.splits)

lemma handle_get_feed: "handle_get e (feed q c) r = apsnd (feed q) (handle_get e c r)"
  by (simp add: handle_get_def feed_upd [symmetric] internal_handler_feed)

lemma handle_head_feed: "handle_head e (feed q c) r = apsnd (feed q) (handle_head e c r)"
  by (simp add: handle_head_def feed_upd [symmetric] internal_handler_feed)

lemma header_end_feed:
  "header_end e (feed q c) r ret = map_sum (apsnd (feed q)) (feed q) (header_end e c r ret)"
proof -
  obtain ret1 c1 where g: "(if strcicmp (method r) ''GET'' = 0 then handle_get e c r else (ret, c)) = (ret1, c1)"
    by (metis surj_pair)
  then have g': "(if strcicmp (method r) ''GET'' = 0 then handle_get e (feed q c) r else (ret, feed q c))
      = (ret1, feed q c1)"
    by (auto simp: handle_get_feed split: if_splits)
  obtain ret2 c2 where h: "(if strcicmp (method r) ''HEAD'' = 0 then handle_head e c1 r else (ret1, c1)) = (ret2, c2)"
    by (metis surj_pair)
  then have h': "(if strcicmp (method r) ''HEAD'' = 0 then handle_head e (feed q c1) r else (ret1, feed q c1))
      = (ret2, feed q c2)"
    by (auto simp: handle_head_feed split: if_splits)
  show ?thesis
    unfolding header_end_def g g' prod.case h h'
    by (simp add: end_request_feed finish_feed feed_upd split: option.splits)
qed

lemma header_end_Inl: "header_end e c r ret = Inl (x, c') \<Longrightarrow> x \<noteq> 0 \<or> req c' = None"
  by (auto simp: header_end_def BAD_REQUEST_def split: prod.splits if_splits option.splits
      dest: end_request_None finish_None)

lemma not_post_get: "strcicmp m ''POST'' = 0 \<Longrightarrow> strcicmp m ''GET'' \<noteq> 0"
  unfolding strcicmp_def using lower_lits by (auto split: if_splits)

lemma header_end_Inr:
  assumes "header_end e c r ret = Inr c'"
  shows "\<exists>b. c' = c\<lparr>req := Some (r\<lparr>content_len := atoi b\<rparr>)\<rparr> \<and>
             get_request_header r ''Content-Length'' = Some b \<and> map lower (method r) = ''post''"
proof -
  from assms have p: "strcicmp (method r) ''POST'' = 0"
    by (auto simp: header_end_def split: prod.splits if_splits)
  then have "map lower (method r) = ''post''"
    unfolding strcicmp_def lower_lits by (simp split: if_splits)
  with not_post_get [OF p] assms show ?thesis
    by (auto simp: header_end_def split: if_splits option.splits prod.splits)
qed

subsection \<open>A call that waits is resumed by the next call\<close>

lemma allowed_method_strcicmp:
  "allowed_method m \<longleftrightarrow>
     strcicmp m ''GET'' = 0 \<or> strcicmp m ''HEAD'' = 0 \<or> strcicmp m ''POST'' = 0"
  unfolding allowed_method_def strcicmp_def lower_lits by auto

lemma header_end_ret:
  assumes "allowed_method (method r)"
  shows "header_end e c r ret = header_end e c r ret'"
  using assms unfolding allowed_method_strcicmp header_end_def
  by (auto split: prod.splits)

lemma parse_header_method: "parse_header r l = (x, r') \<Longrightarrow> method r' = method r"
  using parse_header_eq [of r l] by (auto split: if_splits)

lemma parse_header_feed_indep: "parse_header r l = (x, r') \<Longrightarrow> content_len r' = content_len r"
  using parse_header_eq [of r l] by (auto split: if_splits)

lemma parse_rest_ret:
  assumes "req c = Some r" "allowed_method (method r)"
  shows "parse_rest e c ret = parse_rest e c ret'"
proof (cases "content_len r = -1")
  case False
  with assms show ?thesis by (simp add: parse_rest_body)
next
  case True
  obtain n l c' where rl: "client_readline (MAXBUF e) c = (n, l, c')"
    by (metis prod_cases3)
  show ?thesis
  proof (cases "0 < n")
    case False
    with assms True rl show ?thesis by (simp add: parse_rest_not_ready)
  next
    case n: True
    show ?thesis
    proof (cases "l = []")
      case True
      with assms \<open>content_len r = -1\<close> rl n show ?thesis
        by (simp add: parse_rest_blank header_end_ret [OF assms(2), of e c' ret ret'])
    next
      case False
      obtain x r' where ph: "parse_header r l = (x, r')" by (metis surj_pair)
      show ?thesis
      proof (cases "x = -1")
        case True
        with assms \<open>content_len r = -1\<close> rl n False ph show ?thesis
          by (simp add: parse_rest_bad_header)
      next
        case x: False
        from assms(1) \<open>content_len r = -1\<close> rl n False ph x
        show ?thesis by (simp add: parse_rest_header)
      qed
    qed
  qed
qed

lemma parse_rest_suspend:
  "buf_ok (cin c) \<Longrightarrow> req c = Some r \<Longrightarrow> allowed_method (method r) \<Longrightarrow>
   parse_rest e c ret = (x, c1) \<Longrightarrow> req c1 \<noteq> None \<Longrightarrow> x = 0 \<Longrightarrow> no_sentinel c1 \<Longrightarrow>
   parse_rest e (feed q c1) ret' = parse_rest e (feed q c) ret \<and>
   buf_ok (cin c1) \<and> req_ok c1 \<and> out c1 = out c"
proof (induction e c ret arbitrary: r rule: read_headers.induct)
  case (1 e c ret)
  note prems = "1.prems"
  have fr: "req (feed q c) = Some r" using prems(2) by simp
  show ?case
  proof (cases "content_len r = -1")
    case False
    with prems have "read_body c = (x, c1)" by (simp add: parse_rest_body)
    from read_body_waits [OF this prems(5)] have e: "c1 = c" by simp
    from False fr have "parse_rest e (feed q c) ret' = read_body (feed q c)"
      "parse_rest e (feed q c) ret = read_body (feed q c)"
      by (simp_all add: parse_rest_body)
    with e prems show ?thesis by (simp add: req_ok_def)
  next
    case cl: True
    obtain n l c' where rl: "client_readline (MAXBUF e) c = (n, l, c')"
      by (metis prod_cases3)
    from readline_buf_ok [OF prems(1) rl]
    have ok': "buf_ok (cin c')" "req c' = req c" "out c' = out c" by simp_all
    show ?thesis
    proof (cases "0 < n")
      case False
      with prems cl rl have e: "c1 = c" by (simp add: parse_rest_not_ready)
      have "parse_rest e (feed q c) ret' = parse_rest e (feed q c) ret"
        using fr prems(3) by (rule parse_rest_ret)
      with e prems show ?thesis by (simp add: req_ok_def)
    next
      case n: True
      from readline_feed [OF prems(1) rl n]
      have rlf: "client_readline (MAXBUF e) (feed q c) = (n, l, feed q c')" .
      show ?thesis
      proof (cases "l = []")
        case True
        with prems(2,4) cl rl n
        have pr: "(case header_end e c' r ret of Inl y \<Rightarrow> y | Inr c'' \<Rightarrow> read_body c'') = (x, c1)"
          by (simp add: parse_rest_blank)
        show ?thesis
        proof (cases "header_end e c' r ret")
          case (Inl y)
          with pr have "header_end e c' r ret = Inl (x, c1)" by simp
          from header_end_Inl [OF this] prems(5,6) show ?thesis by simp
        next
          case (Inr c2)
          with pr have rb: "read_body c2 = (x, c1)" by simp
          from read_body_waits [OF rb prems(5)] have e: "c1 = c2" by simp
          from header_end_Inr [OF Inr] obtain b where
            c2: "c2 = c'\<lparr>req := Some (r\<lparr>content_len := atoi b\<rparr>)\<rparr>"
            and b: "get_request_header r ''Content-Length'' = Some b"
              "map lower (method r) = ''post''" by auto
          have cl2: "content_len (r\<lparr>content_len := atoi b\<rparr>) \<noteq> -1"
            using prems(7) b by (simp add: no_sentinel_def e c2)
          have "parse_rest e (feed q c2) ret' = read_body (feed q c2)"
            by (rule parse_rest_body [OF _ cl2]) (simp add: c2)
          moreover have "header_end e (feed q c') r ret = Inr (feed q c2)"
            by (simp add: header_end_feed Inr)
          then have "parse_rest e (feed q c) ret = read_body (feed q c2)"
            using fr cl rlf n True by (simp add: parse_rest_blank)
          ultimately show ?thesis
            using e c2 ok' prems(3) by (simp add: req_ok_def)
        qed
      next
        case False
        obtain y r' where ph: "parse_header r l = (y, r')" by (metis surj_pair)
        show ?thesis
        proof (cases "y = -1")
          case True
          with prems(2,4) cl rl n False ph
          have "end_request (c'\<lparr>req := Some r'\<rparr>) BAD_REQUEST = (x, c1)"
            by (simp add: parse_rest_bad_header)
          from end_request_None [OF this] prems(5) show ?thesis by simp
        next
          case y: False
          let ?c3 = "c'\<lparr>req := Some r'\<rparr>"
          from prems(2,4) cl rl n False ph y
          have pr3: "parse_rest e ?c3 y = (x, c1)" by (simp add: parse_rest_header)
          have m: "allowed_method (method r')"
            using parse_header_method [OF ph] prems(3) by simp
          have ih: "parse_rest e (feed q c1) ret' = parse_rest e (feed q ?c3) y \<and>
              buf_ok (cin c1) \<and> req_ok c1 \<and> out c1 = out ?c3"
          proof (rule "1.IH" [OF prems(2) cl rl [symmetric] refl n _ ph [symmetric] y _ _ m pr3 prems(5,6,7)])
            show "length l \<noteq> 0" using False by simp
            show "buf_ok (cin ?c3)" using ok'(1) by simp
            show "req ?c3 = Some r'" by simp
          qed
          have "parse_rest e (feed q c) ret = parse_rest e ((feed q c')\<lparr>req := Some r'\<rparr>) y"
            using fr cl rlf n False ph y by (rule parse_rest_header)
          with ih ok' show ?thesis by (simp add: feed_upd)
        qed
      qed
    qed
  qed
qed

lemma http_parse_Some: "req c = Some r \<Longrightarrow> http_parse e c = parse_rest e c (ret_uninit e)"
  by (simp add: http_parse_def parse_rest_def)

lemma readline_zero: "client_readline m c = (n, l, c') \<Longrightarrow> n \<le> 0 \<Longrightarrow> c' = c"
  by (cases rule: readline_cases [where c = c and m = m]) auto

lemma readline_zero_line: "client_readline m c = (0, l, c') \<Longrightarrow> l = []"
  by (auto simp: client_readline_def Let_def split: option.splits if_splits)

lemma readline_advances: "client_readline m c = (n, l, c') \<Longrightarrow> 0 < n \<Longrightarrow> pos (cin c) < pos (cin c')"
  by (cases rule: readline_cases [where c = c and m = m]) auto

lemma http_parse_None:
  assumes "req c = None" "client_readline (MAXBUF e) c = (n, l, c')"
  shows "l = [] \<Longrightarrow> http_parse e c = (0, c')"
    and "l \<noteq> [] \<Longrightarrow> n < 0 \<Longrightarrow>
      http_parse e c = end_request (c'\<lparr>req := Some (new_request\<lparr>content_len := -1\<rparr>)\<rparr>) BAD_REQUEST"
    and "l \<noteq> [] \<Longrightarrow> 0 < n \<Longrightarrow>
      parse_request_line (http_version e) (new_request\<lparr>content_len := -1\<rparr>) l = (x, r') \<Longrightarrow> 0 < x \<Longrightarrow>
      http_parse e c = end_request (c'\<lparr>req := Some r'\<rparr>) x"
    and "l \<noteq> [] \<Longrightarrow> 0 < n \<Longrightarrow>
      parse_request_line (http_version e) (new_request\<lparr>content_len := -1\<rparr>) l = (x, r') \<Longrightarrow> \<not> 0 < x \<Longrightarrow>
      http_parse e c = parse_rest e (c'\<lparr>req := Some r'\<rparr>) x"
  using assms by (simp_all add: http_parse_def parse_rest_def Let_def)

lemma parse_request_line_zero:
  assumes "parse_request_line ver rq l = (x, r')" "\<not> 0 < x"
  shows "x = 0 \<and> allowed_method (method r') \<and> content_len r' = content_len rq"
proof (cases "length (tokens l) < 3")
  case True
  from prl_short [OF True, of ver rq] assms show ?thesis by (simp add: BAD_REQUEST_def)
next
  case False
  from prl_long [OF False, of ver rq] assms show ?thesis
    by (auto simp: METHOD_NOT_ALLOWED_def HTTP_VERSION_NOT_SUPPORTED_def split: if_splits)
qed

lemma http_parse_suspend:
  assumes ok: "buf_ok (cin c)" "req_ok c"
    and p: "http_parse e c = (0, c1)" and s: "req c1 \<noteq> None \<or> c1 = c"
    and ns: "no_sentinel c1"
  shows "http_parse e (feed q c1) = http_parse e (feed q c) \<and>
         buf_ok (cin c1) \<and> req_ok c1 \<and> out c1 = out c"
proof (cases "c1 = c")
  case True
  with ok show ?thesis by simp
next
  case ne: False
  with s obtain r1 where r1: "req c1 = Some r1" by auto
  have lhs: "http_parse e (feed q c1) = parse_rest e (feed q c1) (ret_uninit e)"
    using r1 by (simp add: http_parse_Some)
  show ?thesis
  proof (cases "req c")
    case (Some r)
    with ok(2) have m: "allowed_method (method r)" by (simp add: req_ok_def)
    from p Some have pr: "parse_rest e c (ret_uninit e) = (0, c1)" by (simp add: http_parse_Some)
    from parse_rest_suspend [OF ok(1) Some m pr _ _ ns, of q "ret_uninit e"] r1 lhs Some
    show ?thesis by (simp add: http_parse_Some)
  next
    case None
    obtain n l c' where rl: "client_readline (MAXBUF e) c = (n, l, c')"
      by (metis prod_cases3)
    from readline_buf_ok [OF ok(1) rl]
    have ok': "buf_ok (cin c')" "req c' = req c" "out c' = out c" by simp_all
    show ?thesis
    proof (cases "l = []")
      case True
      with http_parse_None(1) [OF None rl] p have "c1 = c'" by simp
      with r1 ok'(2) None show ?thesis by simp
    next
      case l: False
      have n: "0 < n"
      proof (rule ccontr)
        assume "\<not> 0 < n"
        with l readline_zero_line [of "MAXBUF e" c l c'] rl have "n < 0" by (cases "n = 0") auto
        from http_parse_None(2) [OF None rl l this] p end_request_None show False
          by (metis (no_types, lifting) Pair_inject zero_neq_neg_one)
      qed
      obtain x r' where prl: "parse_request_line (http_version e) (new_request\<lparr>content_len := -1\<rparr>) l = (x, r')"
        by (metis surj_pair)
      have x: "\<not> 0 < x"
      proof
        assume "0 < x"
        from http_parse_None(3) [OF None rl l n prl this] p end_request_None show False
          by (metis (no_types, lifting) Pair_inject zero_neq_neg_one)
      qed
      from parse_request_line_zero [OF prl x]
      have x0: "x = 0" and m: "allowed_method (method r')" by simp_all
      let ?c3 = "c'\<lparr>req := Some r'\<rparr>"
      from http_parse_None(4) [OF None rl l n prl x] p
      have pr: "parse_rest e ?c3 x = (0, c1)" by simp
      have "parse_rest e (feed q c1) (ret_uninit e) = parse_rest e (feed q ?c3) x \<and>
         buf_ok (cin c1) \<and> req_ok c1 \<and> out c1 = out ?c3"
        by (rule parse_rest_suspend [OF _ _ m pr _ _ ns]) (use ok' r1 in simp_all)
      moreover have "client_readline (MAXBUF e) (feed q c) = (n, l, feed q c')"
        using ok(1) rl n by (rule readline_feed)
      then have "http_parse e (feed q c) = parse_rest e ((feed q c')\<lparr>req := Some r'\<rparr>) x"
        using l n prl x None by (intro http_parse_None(4)) simp_all
      ultimately show ?thesis using lhs ok' by (simp add: feed_upd)
    qed
  qed
qed

lemma feed_run_one_shot:
  assumes ok: "buf_ok (cin c0)" "req c0 = None"
    and fs: "fs \<noteq> []" "\<forall>f \<in> set fs. f \<noteq> []"
    and w: "\<forall>p s. concat fs = p @ s \<longrightarrow> p \<noteq> [] \<longrightarrow> s \<noteq> [] \<longrightarrow> awaits e (feed p c0)"
  shows "feed_run e fs (0, c0) = http_parse e (feed (concat fs) c0)"
proof -
  have gen: "feed_run e fs (http_parse e (feed p c0)) = http_parse e (feed (p @ concat fs) c0)"
    if "p \<noteq> []" "\<forall>f \<in> set fs. f \<noteq> []"
      "\<forall>p' s. p @ concat fs = p' @ s \<longrightarrow> p' \<noteq> [] \<longrightarrow> s \<noteq> [] \<longrightarrow> awaits e (feed p' c0)"
    for p fs
    using that
  proof (induction fs arbitrary: p)
    case Nil
    then show ?case by simp
  next
    case (Cons f fs)
    from Cons.prems(2) have f: "f \<noteq> []" by simp
    then have "p @ concat (f # fs) = p @ (f @ concat fs)" "f @ concat fs \<noteq> []" by simp_all
    with Cons.prems(1,3) have aw: "awaits e (feed p c0)" by blast
    obtain c1 where hp: "http_parse e (feed p c0) = (0, c1)" and s: "req c1 \<noteq> None \<or> c1 = feed p c0"
      and ns: "no_sentinel c1"
      using aw by (auto simp: awaits_def)
    have okp: "buf_ok (cin (feed p c0))" "req_ok (feed p c0)"
      using ok by (simp_all add: buf_ok_feed req_ok_def)
    from http_parse_suspend [OF okp hp s ns, of f]
    have "http_parse e (feed f c1) = http_parse e (feed (p @ f) c0)"
      by (simp add: feed_feed [OF ok(1)])
    moreover have "feed_run e fs (http_parse e (feed (p @ f) c0)) = http_parse e (feed ((p @ f) @ concat fs) c0)"
      using Cons.prems f by (intro Cons.IH) simp_all
    ultimately show ?case using hp by simp
  qed
  from fs obtain f fs' where e: "fs = f # fs'" by (cases fs) auto
  with fs(2) w have "feed_run e fs' (http_parse e (feed f c0)) = http_parse e (feed (f @ concat fs') c0)"
    by (intro gen) simp_all
  with e show ?thesis by simp
qed

subsection \<open>Connections that show the same\<close>

lemma observe_eq:
  "observe (x, c) = observe (y, d) \<longleftrightarrow> x = y \<and> sim c d"
  by (auto simp: observe_def sim_def)

lemma sim_fields:
  "sim c d \<Longrightarrow> received (cin c) = received (cin d) \<and> datasize (cin c) = datasize (cin d) \<and>
     pos (cin c) = pos (cin d) \<and> req c = req d \<and> out c = out d \<and> pipe c = pipe d \<and>
     status c = status d \<and> closed c = closed d"
  by (simp add: sim_def observe_def)

lemma sim_upd:
  assumes "sim c d"
  shows "sim (c\<lparr>req := x\<rparr>) (d\<lparr>req := x\<rparr>)" "sim (c\<lparr>out := y\<rparr>) (d\<lparr>out := y\<rparr>)"
    "sim (c\<lparr>status := z\<rparr>) (d\<lparr>status := z\<rparr>)" "sim (c\<lparr>pipe := v\<rparr>) (d\<lparr>pipe := v\<rparr>)"
    "sim (c\<lparr>closed := w\<rparr>) (d\<lparr>closed := w\<rparr>)"
    "sim (c\<lparr>cin := (cin c)\<lparr>pos := p\<rparr>\<rparr>) (d\<lparr>cin := (cin d)\<lparr>pos := p\<rparr>\<rparr>)"
  using assms by (auto simp: sim_def observe_def received_def)

lemma sim_unread: "sim c d \<Longrightarrow> 0 \<le> pos (cin c) \<Longrightarrow> unread (cin d) = unread (cin c)"
  using sim_fields [of c d] by (simp add: unread_received)

lemma readline_sim:
  assumes "sim c d" "0 \<le> pos (cin c)" "client_readline m c = (n, l, c1)"
  shows "\<exists>d1. client_readline m d = (n, l, d1) \<and> sim c1 d1 \<and> 0 \<le> pos (cin c1)"
proof -
  have u: "unread (cin d) = unread (cin c)" using assms(1,2) by (rule sim_unread)
  have p: "pos (cin d) = pos (cin c)" using sim_fields [OF assms(1)] by simp
  show ?thesis
  proof (cases "strchr (unread (cin c)) (CHR 0x0A)")
    case None
    with assms u show ?thesis
      by (auto simp: client_readline_def Let_def split: if_splits)
  next
    case (Some k)
    with assms u p sim_upd(6) [OF assms(1)] show ?thesis
      by (auto simp: client_readline_def Let_def add.assoc split: if_splits)
  qed
qed

lemma end_request_sim: "sim c d \<Longrightarrow> observe (end_request c code) = observe (end_request d code)"
  using sim_fields [of c d]
  by (simp add: end_request_def deinit_request_def observe_eq sim_upd)

lemma finish_sim: "sim c d \<Longrightarrow> observe (finish c r ret) = observe (finish d r ret)"
  by (simp add: finish_def end_request_sim deinit_request_def observe_eq sim_upd)

lemma internal_handler_sim:
  assumes "sim c d"
  shows "observe (internal_handler e c r fl) = observe (internal_handler e d r fl)"
proof -
  obtain fd sz mt lm where o: "open_file e (uri r) = (fd, sz, mt, lm)" by (metis prod_cases4)
  from sim_fields [OF assms] have f: "out d = out c" "closed d = closed c" by simp_all
  show ?thesis
    using assms o
    by (simp add: internal_handler_def Let_def observe_eq sim_upd f)
qed

lemma handle_get_sim: "sim c d \<Longrightarrow> observe (handle_get e c r) = observe (handle_get e d r)"
  by (simp add: handle_get_def internal_handler_sim sim_upd)

lemma handle_head_sim: "sim c d \<Longrightarrow> observe (handle_head e c r) = observe (handle_head e d r)"
  by (simp add: handle_head_def internal_handler_sim sim_upd)

lemma observe_pairs:
  assumes "observe p = observe p'"
  obtains x c d where "p = (x, c)" "p' = (x, d)" "sim c d"
  using assms by (cases p; cases p') (auto simp: observe_eq)

lemma header_end_sim:
  assumes "sim c d"
  shows "rel_sum (\<lambda>a b. observe a = observe b) sim (header_end e c r ret) (header_end e d r ret)"
proof -
  have "observe (if strcicmp (method r) ''GET'' = 0 then handle_get e c r else (ret, c))
      = observe (if strcicmp (method r) ''GET'' = 0 then handle_get e d r else (ret, d))"
    using assms by (simp add: handle_get_sim observe_eq)
  then obtain ret1 c1 d1 where g:
    "(if strcicmp (method r) ''GET'' = 0 then handle_get e c r else (ret, c)) = (ret1, c1)"
    "(if strcicmp (method r) ''GET'' = 0 then handle_get e d r else (ret, d)) = (ret1, d1)"
    "sim c1 d1"
    by (rule observe_pairs)
  have "observe (if strcicmp (method r) ''HEAD'' = 0 then handle_head e c1 r else (ret1, c1))
      = observe (if strcicmp (method r) ''HEAD'' = 0 then handle_head e d1 r else (ret1, d1))"
    using g(3) by (simp add: handle_head_sim observe_eq)
  then obtain ret2 c2 d2 where h:
    "(if strcicmp (method r) ''HEAD'' = 0 then handle_head e c1 r else (ret1, c1)) = (ret2, c2)"
    "(if strcicmp (method r) ''HEAD'' = 0 then handle_head e d1 r else (ret1, d1)) = (ret2, d2)"
    "sim c2 d2"
    by (rule observe_pairs)
  show ?thesis
    unfolding header_end_def g(1,2) h(1,2) prod.case
    using g(3) h(3)
    by (simp add: end_request_sim finish_sim observe_eq sim_upd split: option.splits)
qed

lemma read_body_sim:
  assumes "sim c d"
  shows "observe (read_body c) = observe (read_body d)"
proof -
  from sim_fields [OF assms] have f: "req d = req c" "datasize (cin d) = datasize (cin c)"
    "pos (cin d) = pos (cin c)" by simp_all
  have s: "sim (c\<lparr>req := x, cin := (cin c)\<lparr>pos := p\<rparr>\<rparr>) (d\<lparr>req := x, cin := (cin d)\<lparr>pos := p\<rparr>\<rparr>)"
    for x p
    using assms by (auto simp: sim_def observe_def received_def)
  show ?thesis
  proof (cases "req c")
    case None
    with f assms show ?thesis by (simp add: read_body_def observe_eq)
  next
    case (Some r)
    show ?thesis
    proof (cases "0 < content_len r \<and> content_len r \<le> datasize (cin c) - pos (cin c)")
      case True
      with Some f show ?thesis
        by (simp add: read_body_def Let_def handle_post_def finish_sim [OF s])
    next
      case False
      with Some f assms show ?thesis
        by (auto simp: read_body_def Let_def observe_eq)
    qed
  qed
qed

lemma parse_rest_sim:
  "sim c d \<Longrightarrow> 0 \<le> pos (cin c) \<Longrightarrow>
   observe (parse_rest e c ret) = observe (parse_rest e d ret)"
proof (induction e c ret arbitrary: d rule: read_headers.induct)
  case (1 e c ret)
  note s = "1.prems"(1) and p = "1.prems"(2)
  from sim_fields [OF s] have rq: "req d = req c" by simp
  show ?case
  proof (cases "req c")
    case None
    with rq s show ?thesis
      by (simp add: parse_rest_def read_headers.simps [of e c ret] read_headers.simps [of e d ret]
          read_body_sim)
  next
    case (Some r)
    with rq have rd: "req d = Some r" by simp
    show ?thesis
    proof (cases "content_len r = -1")
      case False
      with Some rd s show ?thesis by (simp add: parse_rest_body read_body_sim)
    next
      case cl: True
      obtain n l c' where rl: "client_readline (MAXBUF e) c = (n, l, c')"
        by (metis prod_cases3)
      from readline_sim [OF s p rl] obtain d' where
        rld: "client_readline (MAXBUF e) d = (n, l, d')" and s': "sim c' d'"
        and p': "0 \<le> pos (cin c')"
        by blast
      show ?thesis
      proof (cases "0 < n")
        case False
        with Some rd cl rl rld s show ?thesis
          by (simp add: parse_rest_not_ready observe_eq)
      next
        case n: True
        show ?thesis
        proof (cases "l = []")
          case True
          from header_end_sim [OF s', of e r ret]
          have "observe (case header_end e c' r ret of Inl x \<Rightarrow> x | Inr c'' \<Rightarrow> read_body c'')
              = observe (case header_end e d' r ret of Inl x \<Rightarrow> x | Inr c'' \<Rightarrow> read_body c'')"
            by (cases "header_end e c' r ret"; cases "header_end e d' r ret")
               (simp_all add: read_body_sim)
          with Some rd cl rl rld n True show ?thesis
            by (simp add: parse_rest_blank)
        next
          case False
          obtain y r' where ph: "parse_header r l = (y, r')" by (metis surj_pair)
          show ?thesis
          proof (cases "y = -1")
            case True
            with Some rd cl rl rld n False ph s' show ?thesis
              by (simp add: parse_rest_bad_header end_request_sim sim_upd)
          next
            case y: False
            have "observe (parse_rest e (c'\<lparr>req := Some r'\<rparr>) y)
                = observe (parse_rest e (d'\<lparr>req := Some r'\<rparr>) y)"
            proof (rule "1.IH" [OF Some cl rl [symmetric] refl n _ ph [symmetric] y])
              show "length l \<noteq> 0" using False by simp
              show "sim (c'\<lparr>req := Some r'\<rparr>) (d'\<lparr>req := Some r'\<rparr>)" using s' by (rule sim_upd)
              show "0 \<le> pos (cin (c'\<lparr>req := Some r'\<rparr>))" using p' by simp
            qed
            moreover have "parse_rest e c ret = parse_rest e (c'\<lparr>req := Some r'\<rparr>) y"
              using Some cl rl n False ph y by (rule parse_rest_header)
            moreover have "parse_rest e d ret = parse_rest e (d'\<lparr>req := Some r'\<rparr>) y"
              using rd cl rld n False ph y by (rule parse_rest_header)
            ultimately show ?thesis by simp
          qed
        qed
      qed
    qed
  qed
qed

lemma http_parse_sim:
  assumes s: "sim c d" and p: "0 \<le> pos (cin c)"
  shows "observe (http_parse e c) = observe (http_parse e d)"
proof (cases "req c")
  case (Some r)
  moreover from sim_fields [OF s] Some have "req d = Some r" by simp
  ultimately show ?thesis
    using parse_rest_sim [OF s p] by (simp add: http_parse_Some)
next
  case None
  with sim_fields [OF s] have nd: "req d = None" by simp
  obtain n l c' where rl: "client_readline (MAXBUF e) c = (n, l, c')"
    by (metis prod_cases3)
  from readline_sim [OF s p rl] obtain d' where
    rld: "client_readline (MAXBUF e) d = (n, l, d')" and s': "sim c' d'"
    and p': "0 \<le> pos (cin c')"
    by blast
  show ?thesis
  proof (cases "l = []")
    case True
    with http_parse_None(1) [OF None rl] http_parse_None(1) [OF nd rld] s' show ?thesis
      by (simp add: observe_eq)
  next
    case l: False
    consider "n < 0" | "n = 0" | "0 < n" by linarith
    then show ?thesis
    proof cases
      case 1
      with http_parse_None(2) [OF None rl l] http_parse_None(2) [OF nd rld l] s' show ?thesis
        by (simp add: end_request_sim sim_upd)
    next
      case 2
      with rl l readline_zero_line show ?thesis by blast
    next
      case 3
      obtain x r' where prl: "parse_request_line (http_version e) (new_request\<lparr>content_len := -1\<rparr>) l = (x, r')"
        by (metis surj_pair)
      show ?thesis
      proof (cases "0 < x")
        case True
        with http_parse_None(3) [OF None rl l 3 prl] http_parse_None(3) [OF nd rld l 3 prl] s'
        show ?thesis by (simp add: end_request_sim sim_upd)
      next
        case False
        have "observe (parse_rest e (c'\<lparr>req := Some r'\<rparr>) x) = observe (parse_rest e (d'\<lparr>req := Some r'\<rparr>) x)"
          by (rule parse_rest_sim) (use s' p' in \<open>simp_all add: sim_upd\<close>)
        with http_parse_None(4) [OF None rl l 3 prl False] http_parse_None(4) [OF nd rld l 3 prl False]
        show ?thesis by simp
      qed
    qed
  qed
qed

subsection \<open>\<open>io_recv\<close> appends the bytes received\<close>

lemma received_store:
  assumes "0 \<le> d" "d + int (length bs) \<le> int (length m)"
  shows "take (nat (d + int (length bs))) (store m (nat d) bs) = take (nat d) m @ bs"
    and "length (store m (nat d) bs) = length m"
proof -
  from assms have l: "nat d \<le> length m" "nat (d + int (length bs)) = nat d + length bs"
    "nat d + length bs \<le> length m"
    by auto
  have t: "length (take (nat d) m) = nat d" using l(1) by simp
  show "take (nat (d + int (length bs))) (store m (nat d) bs) = take (nat d) m @ bs"
    unfolding store_def l(2) using t by simp
  show "length (store m (nat d) bs) = length m"
    unfolding store_def using l by simp
qed

lemma recv_step_ok:
  assumes ok: "recv_ok B bp" and n: "0 < length bs" "int (length bs) \<le> bufsize bp - datasize bp - 1"
    and bp1_def: "bp1 = bp\<lparr>buf := store (buf bp) (nat (datasize bp)) bs,
                        datasize := datasize bp + int (length bs)\<rparr>"
    and bp2_def: "bp2 = (if full B bp1
                       then bp1\<lparr>buf := realloc (buf bp1) (nat (bufsize bp1 + bufsize bp1 div 2)),
                                bufsize := bufsize bp1 + bufsize bp1 div 2\<rparr>
                       else bp1)"
  shows "recv_ok B bp2 \<and> received bp2 = received bp @ bs \<and>
         datasize bp2 = datasize bp + int (length bs) \<and> pos bp2 = pos bp"
proof -
  from ok have b: "4 \<le> B" "0 \<le> pos bp" "pos bp \<le> datasize bp"
    "int (length (buf bp)) = bufsize bp" "datasize bp + 2 \<le> bufsize bp"
    by (simp_all add: recv_ok_def)
  have d0: "0 \<le> datasize bp" using b by simp
  have fit: "datasize bp + int (length bs) \<le> int (length (buf bp))" using n b by simp
  note st = received_store [OF d0 fit]
  have r1: "received bp1 = received bp @ bs" "int (length (buf bp1)) = bufsize bp1"
    "datasize bp1 = datasize bp + int (length bs)" "pos bp1 = pos bp" "bufsize bp1 = bufsize bp"
    using st b by (simp_all add: bp1_def received_def)
  show ?thesis
  proof (cases "full B bp1")
    case False
    then have "datasize bp1 + B div 2 \<le> bufsize bp1" by (simp add: full_def)
    with b have "datasize bp1 + 2 \<le> bufsize bp1" by linarith
    with False r1 b show ?thesis by (simp add: bp2_def recv_ok_def)
  next
    case True
    let ?nb = "bufsize bp1 + bufsize bp1 div 2"
    have ge: "bufsize bp1 \<le> ?nb" "datasize bp1 + 2 \<le> ?nb" "0 \<le> bufsize bp1"
      using r1 n b by auto
    have rl: "length (realloc (buf bp1) (nat ?nb)) = nat ?nb"
      using ge r1 by (simp add: realloc_def min_def)
    have "datasize bp1 \<le> int (length (buf bp1))" using r1 n b by simp
    then have "take (nat (datasize bp1)) (realloc (buf bp1) (nat ?nb)) = take (nat (datasize bp1)) (buf bp1)"
      using ge r1 by (simp add: realloc_def)
    with True r1 rl ge b show ?thesis
      by (simp add: bp2_def recv_ok_def received_def)
  qed
qed

lemma io_recv_loop_data:
  "recv_ok B bp \<Longrightarrow>
   (case io_recv_loop B [Data q] bp of
      (n, a, s', bp') \<Rightarrow> recv_ok B bp' \<and> received bp' = received bp @ q \<and>
         datasize bp' = datasize bp + int (length q) \<and> pos bp' = pos bp)"
proof (induction q arbitrary: bp rule: length_induct)
  case (1 q)
  note ok = "1.prems"
  from ok have b: "datasize bp + 2 \<le> bufsize bp" by (simp add: recv_ok_def)
  let ?L = "bufsize bp - datasize bp - 1"
  have L: "size_t ?L = ?L" "1 \<le> ?L" using b by (simp_all add: size_t_def)
  show ?case
  proof (cases "q = []")
    case True
    with ok show ?thesis by (simp add: io_recv_loop.simps [of B "[Data []]" bp] Let_def)
  next
    case False
    define n where "n = min ?L (int (length q))"
    have n: "0 < n" "n \<le> ?L" "n \<le> int (length q)" using False L by (auto simp: n_def)
    define bs where "bs = take (nat n) q"
    have bs: "int (length bs) = n" "0 < length bs" using n by (auto simp: bs_def)
    define bp1 where "bp1 = bp\<lparr>buf := store (buf bp) (nat (datasize bp)) bs,
                        datasize := datasize bp + int (length bs)\<rparr>"
    define bp2 where "bp2 = (if full B bp1
                       then bp1\<lparr>buf := realloc (buf bp1) (nat (bufsize bp1 + bufsize bp1 div 2)),
                                bufsize := bufsize bp1 + bufsize bp1 div 2\<rparr>
                       else bp1)"
    from recv_step_ok [OF ok bs(2) _ bp1_def bp2_def] n bs
    have ok2: "recv_ok B bp2" "received bp2 = received bp @ bs"
      "datasize bp2 = datasize bp + n" "pos bp2 = pos bp"
      by simp_all
    define s' where "s' = (if n < int (length q) then [Data (drop (nat n) q)] else [])"
    have rv: "recv [Data q] (size_t ?L) = (n, False, bs, s')"
      by (simp add: L(1) n_def bs_def s'_def Let_def)
    have "io_recv_loop B [Data q] bp =
        (let bp1 = bp\<lparr>buf := store (buf bp) (nat (datasize bp)) bs,
                        datasize := datasize bp + n\<rparr>;
             bp2 = (if full B bp1
                       then bp1\<lparr>buf := realloc (buf bp1) (nat (bufsize bp1 + bufsize bp1 div 2)),
                                bufsize := bufsize bp1 + bufsize bp1 div 2\<rparr>
                       else bp1)
         in io_recv_loop B s' bp2)"
      by (subst io_recv_loop.simps) (simp only: rv prod.case n(1) if_True)
    also have "\<dots> = io_recv_loop B s' bp2"
      unfolding Let_def bp2_def bp1_def bs(1) ..
    finally have step: "io_recv_loop B [Data q] bp = io_recv_loop B s' bp2" .
    show ?thesis
    proof (cases "n < int (length q)")
      case True
      have "0 < nat n" "nat n \<le> length q" using n(1,3) by linarith+
      then have sh: "length (drop (nat n) q) < length q" by simp
      have
        "case io_recv_loop B [Data (drop (nat n) q)] bp2 of
          (k, a, t, bp') \<Rightarrow> recv_ok B bp' \<and> received bp' = received bp2 @ drop (nat n) q \<and>
             datasize bp' = datasize bp2 + int (length (drop (nat n) q)) \<and> pos bp' = pos bp2"
        using "1.IH" [rule_format, OF sh ok2(1)] .
      then obtain k a t bp' where res: "io_recv_loop B [Data (drop (nat n) q)] bp2 = (k, a, t, bp')"
        and r: "recv_ok B bp'" "received bp' = received bp2 @ drop (nat n) q"
          "datasize bp' = datasize bp2 + int (length (drop (nat n) q))" "pos bp' = pos bp2"
        by (cases "io_recv_loop B [Data (drop (nat n) q)] bp2") simp
      have "received bp' = received bp @ q" using r(2) ok2(2) by (simp add: bs_def)
      moreover have "datasize bp' = datasize bp + int (length q)"
        using r(3) ok2(3) n by simp
      moreover have "io_recv_loop B [Data q] bp = (k, a, t, bp')"
        using step True res by (simp add: s'_def)
      ultimately show ?thesis using r(1,4) ok2(4) by simp
    next
      case False
      with n have e: "n = int (length q)" "nat n = length q" by simp_all
      from False step have "io_recv_loop B [Data q] bp = (-1, True, [], bp2)"
        by (simp add: s'_def io_recv_loop.simps [of B "[]" bp2])
      with ok2 e show ?thesis by (simp add: bs_def)
    qed
  qed
qed

lemma arrive_feed:
  assumes "recv_ok (BUFSIZE e) (cin c)"
  shows "sim (arrive e q c) (feed q c) \<and> recv_ok (BUFSIZE e) (cin (arrive e q c))"
proof -
  obtain n a s' bp' where l: "io_recv_loop (BUFSIZE e) [Data q] (cin c) = (n, a, s', bp')"
    by (metis prod_cases4)
  from io_recv_loop_data [OF assms, of q] l
  have r: "recv_ok (BUFSIZE e) bp'" "received bp' = received (cin c) @ q"
    "datasize bp' = datasize (cin c) + int (length q)" "pos bp' = pos (cin c)"
    by simp_all
  from l have a: "arrive e q c = c\<lparr>cin := bp'\<rparr>"
    by (simp add: arrive_def io_recv_def)
  from assms have "buf_ok (cin c)" by (simp add: recv_ok_def buf_ok_def)
  then have "received (cin (feed q c)) = received (cin c) @ q"
    by (rule received_feed)
  with r a show ?thesis
    by (simp add: sim_def observe_def feed_def)
qed

subsection \<open>\<open>http_parse\<close> only moves the read cursor\<close>

lemma moved_refl: "pos (cin c) \<le> datasize (cin c) \<Longrightarrow> moved c c"
  unfolding moved_def by (rule exI [of _ "pos (cin c)"]) simp

lemma moved_trans: "moved a b \<Longrightarrow> moved b c \<Longrightarrow> moved a c"
  by (auto simp: moved_def)

lemma moved_same: "moved c c' \<Longrightarrow> cin c'' = cin c' \<Longrightarrow> moved c c''"
  by (simp add: moved_def)

lemma readline_moved:
  assumes "pos (cin c) \<le> datasize (cin c)" "client_readline m c = (n, l, c')"
  shows "moved c c'"
proof (cases rule: readline_cases [where c = c and m = m])
  case (ready k)
  from ready(1) have "k < length (unread (cin c))" by (rule strchr_lt)
  moreover have "length (unread (cin c)) \<le> nat (datasize (cin c) - pos (cin c))"
    by (simp add: unread_def)
  ultimately have "int k + 1 \<le> datasize (cin c) - pos (cin c)" by simp
  with ready(3) assms show ?thesis by (auto simp: moved_def)
next
  case (not_ready n' l')
  with assms show ?thesis by (simp add: moved_refl)
qed

lemma end_request_cin: "end_request c code = (x, c') \<Longrightarrow> cin c' = cin c"
  by (auto simp: end_request_def deinit_request_def)

lemma finish_cin: "finish c r ret = (x, c') \<Longrightarrow> cin c' = cin c"
  by (auto simp: finish_def deinit_request_def dest: end_request_cin split: if_splits)

lemma internal_handler_cin: "internal_handler e c r fl = (x, c') \<Longrightarrow> cin c' = cin c"
  by (auto simp: internal_handler_def Let_def split: prod.splits if_splits)

lemma handle_get_cin: "handle_get e c r = (x, c') \<Longrightarrow> cin c' = cin c"
  by (auto simp: handle_get_def dest: internal_handler_cin)

lemma handle_head_cin: "handle_head e c r = (x, c') \<Longrightarrow> cin c' = cin c"
  by (auto simp: handle_head_def dest: internal_handler_cin)

lemma header_end_cin:
  "header_end e c r ret = Inl (x, c') \<Longrightarrow> cin c' = cin c"
  "header_end e c r ret = Inr c'' \<Longrightarrow> cin c'' = cin c"
proof -
  obtain ret1 c1 where g: "(if strcicmp (method r) ''GET'' = 0 then handle_get e c r else (ret, c)) = (ret1, c1)"
    by (metis surj_pair)
  then have c1: "cin c1 = cin c" by (auto dest: handle_get_cin split: if_splits)
  obtain ret2 c2 where h: "(if strcicmp (method r) ''HEAD'' = 0 then handle_head e c1 r else (ret1, c1)) = (ret2, c2)"
    by (metis surj_pair)
  then have c2: "cin c2 = cin c" using c1 by (auto dest: handle_head_cin split: if_splits)
  show "header_end e c r ret = Inl (x, c') \<Longrightarrow> cin c' = cin c"
    unfolding header_end_def g h prod.case using c1 c2
    by (auto split: if_splits option.splits dest: end_request_cin finish_cin)
  show "header_end e c r ret = Inr c'' \<Longrightarrow> cin c'' = cin c"
    unfolding header_end_def g h prod.case using c1 c2
    by (auto split: if_splits option.splits)
qed

lemma read_body_moved:
  assumes "pos (cin c) \<le> datasize (cin c)" "read_body c = (x, c')"
  shows "moved c c'"
proof (cases "req c")
  case None
  with assms show ?thesis by (simp add: read_body_def moved_refl)
next
  case (Some r)
  show ?thesis
  proof (cases "0 < content_len r \<and> content_len r \<le> datasize (cin c) - pos (cin c)")
    case False
    with Some assms show ?thesis by (auto simp: read_body_def moved_refl)
  next
    case True
    let ?c1 = "c\<lparr>req := Some (r\<lparr>body := Some (pos (cin c))\<rparr>),
        cin := (cin c)\<lparr>pos := pos (cin c) + content_len r\<rparr>\<rparr>"
    from True Some assms(2) have "finish ?c1 (r\<lparr>body := Some (pos (cin c))\<rparr>) NOT_IMPLEMENTED = (x, c')"
      by (simp add: read_body_def Let_def handle_post_def)
    from finish_cin [OF this] True show ?thesis by (auto simp: moved_def)
  qed
qed

lemma parse_rest_moved:
  "pos (cin c) \<le> datasize (cin c) \<Longrightarrow> parse_rest e c ret = (x, c1) \<Longrightarrow> moved c c1"
proof (induction e c ret rule: read_headers.induct)
  case (1 e c ret)
  note le = "1.prems"(1) and pr = "1.prems"(2)
  show ?case
  proof (cases "req c")
    case None
    with pr have "read_body c = (x, c1)"
      by (simp add: parse_rest_def read_headers.simps [of e c ret])
    with le show ?thesis by (rule read_body_moved)
  next
    case (Some r)
    show ?thesis
    proof (cases "content_len r = -1")
      case False
      with Some pr have "read_body c = (x, c1)" by (simp add: parse_rest_body)
      with le show ?thesis by (rule read_body_moved)
    next
      case cl: True
      obtain n l c' where rl: "client_readline (MAXBUF e) c = (n, l, c')"
        by (metis prod_cases3)
      from readline_moved [OF le rl] have m': "moved c c'" .
      then have le': "pos (cin c') \<le> datasize (cin c')" by (auto simp: moved_def)
      show ?thesis
      proof (cases "0 < n")
        case False
        with Some cl rl pr le show ?thesis by (simp add: parse_rest_not_ready moved_refl)
      next
        case n: True
        show ?thesis
        proof (cases "l = []")
          case True
          with Some cl rl n pr
          have h: "(case header_end e c' r ret of Inl y \<Rightarrow> y | Inr c'' \<Rightarrow> read_body c'') = (x, c1)"
            by (simp add: parse_rest_blank)
          show ?thesis
          proof (cases "header_end e c' r ret")
            case (Inl y)
            with h header_end_cin(1) [of e c' r ret x c1] have "cin c1 = cin c'" by simp
            with m' show ?thesis by (simp add: moved_def)
          next
            case (Inr c2)
            from header_end_cin(2) [OF Inr] have c2: "cin c2 = cin c'" .
            from Inr h have "read_body c2 = (x, c1)" by simp
            from read_body_moved [OF _ this] c2 le' have "moved c2 c1" by simp
            with c2 have "moved c' c1" by (simp add: moved_def)
            with m' show ?thesis by (rule moved_trans)
          qed
        next
          case False
          obtain y r' where ph: "parse_header r l = (y, r')" by (metis surj_pair)
          show ?thesis
          proof (cases "y = -1")
            case True
            with Some cl rl n False ph pr
            have "end_request (c'\<lparr>req := Some r'\<rparr>) BAD_REQUEST = (x, c1)"
              by (simp add: parse_rest_bad_header)
            from end_request_cin [OF this] m' show ?thesis by (simp add: moved_def)
          next
            case y: False
            from Some cl rl n False ph y pr
            have pr3: "parse_rest e (c'\<lparr>req := Some r'\<rparr>) y = (x, c1)"
              by (simp add: parse_rest_header)
            have "moved (c'\<lparr>req := Some r'\<rparr>) c1"
            proof (rule "1.IH" [OF Some cl rl [symmetric] refl n _ ph [symmetric] y _ pr3])
              show "length l \<noteq> 0" using False by simp
              show "pos (cin (c'\<lparr>req := Some r'\<rparr>)) \<le> datasize (cin (c'\<lparr>req := Some r'\<rparr>))"
                using le' by simp
            qed
            then have "moved c' c1" by (simp add: moved_def)
            with m' show ?thesis by (rule moved_trans)
          qed
        qed
      qed
    qed
  qed
qed

lemma http_parse_moved:
  assumes le: "pos (cin c) \<le> datasize (cin c)" and hp: "http_parse e c = (x, c1)"
  shows "moved c c1"
proof (cases "req c")
  case (Some r)
  with hp have "parse_rest e c (ret_uninit e) = (x, c1)" by (simp add: http_parse_Some)
  with le show ?thesis by (rule parse_rest_moved)
next
  case None
  obtain n l c' where rl: "client_readline (MAXBUF e) c = (n, l, c')"
    by (metis prod_cases3)
  from readline_moved [OF le rl] have m': "moved c c'" .
  then have le': "pos (cin c') \<le> datasize (cin c')" by (auto simp: moved_def)
  show ?thesis
  proof (cases "l = []")
    case True
    with http_parse_None(1) [OF None rl] hp m' show ?thesis by simp
  next
    case l: False
    consider "n < 0" | "n = 0" | "0 < n" by linarith
    then show ?thesis
    proof cases
      case 1
      with http_parse_None(2) [OF None rl l] hp
      have "end_request (c'\<lparr>req := Some (new_request\<lparr>content_len := -1\<rparr>)\<rparr>) BAD_REQUEST = (x, c1)"
        by simp
      from end_request_cin [OF this] m' show ?thesis by (simp add: moved_def)
    next
      case 2
      with rl l readline_zero_line show ?thesis by blast
    next
      case 3
      obtain y r' where prl: "parse_request_line (http_version e) (new_request\<lparr>content_len := -1\<rparr>) l = (y, r')"
        by (metis surj_pair)
      show ?thesis
      proof (cases "0 < y")
        case True
        with http_parse_None(3) [OF None rl l 3 prl] hp
        have "end_request (c'\<lparr>req := Some r'\<rparr>) y = (x, c1)" by simp
        from end_request_cin [OF this] m' show ?thesis by (simp add: moved_def)
      next
        case False
        with http_parse_None(4) [OF None rl l 3 prl] hp
        have "parse_rest e (c'\<lparr>req := Some r'\<rparr>) y = (x, c1)" by simp
        from parse_rest_moved [OF _ this] le' have "moved (c'\<lparr>req := Some r'\<rparr>) c1" by simp
        then have "moved c' c1" by (simp add: moved_def)
        with m' show ?thesis by (rule moved_trans)
      qed
    qed
  qed
qed

lemma http_parse_recv_ok:
  assumes "recv_ok B (cin c)" "http_parse e c = (x, c1)"
  shows "recv_ok B (cin c1)"
proof -
  from assms(1) have "pos (cin c) \<le> datasize (cin c)" by (simp add: recv_ok_def)
  from http_parse_moved [OF this assms(2)] assms(1) show ?thesis
    by (auto simp: moved_def recv_ok_def)
qed

lemma feed_sim:
  assumes "sim c d"
  shows "sim (feed q c) (feed q d)"
proof -
  from assms have r: "received (cin c) = received (cin d)" and d: "datasize (cin c) = datasize (cin d)"
    and o: "pos (cin c) = pos (cin d)" "req c = req d" "out c = out d" "pipe c = pipe d"
      "status c = status d" "closed c = closed d"
    by (simp_all add: sim_def observe_def)
  have "cin (feed q c) = (cin (feed q d))\<lparr>bufsize := bufsize (cin (feed q c))\<rparr>"
    using r d o by (simp add: feed_def)
  then have "received (cin (feed q c)) = received (cin (feed q d))"
    "datasize (cin (feed q c)) = datasize (cin (feed q d))"
    "pos (cin (feed q c)) = pos (cin (feed q d))"
    by (simp_all add: received_def) (metis buf_t.select_convs buf_t.surjective buf_t.update_convs)+
  then show ?thesis using o by (simp add: sim_def observe_def feed_def)
qed

lemma run_feed_run:
  "recv_ok (BUFSIZE e) (cin c) \<Longrightarrow> sim c d \<Longrightarrow>
   observe (run e fs (r, c)) = observe (feed_run e fs (r, d))"
proof (induction fs arbitrary: r c d)
  case Nil
  then show ?case by (simp add: observe_eq)
next
  case (Cons q qs)
  show ?case
  proof (cases "r = 0")
    case False
    with Cons.prems show ?thesis by (simp add: observe_eq)
  next
    case True
    from arrive_feed [OF Cons.prems(1), of q]
    have a: "sim (arrive e q c) (feed q c)" "recv_ok (BUFSIZE e) (cin (arrive e q c))" by simp_all
    from a(2) have p: "0 \<le> pos (cin (arrive e q c))" by (simp add: recv_ok_def)
    then have p': "0 \<le> pos (cin (feed q c))" using sim_fields [OF a(1)] by simp
    have "observe (http_parse e (arrive e q c)) = observe (http_parse e (feed q c))"
      using a(1) p by (rule http_parse_sim)
    also have "\<dots> = observe (http_parse e (feed q d))"
      using feed_sim [OF Cons.prems(2)] p' by (rule http_parse_sim)
    finally obtain x c' d' where
      h: "http_parse e (arrive e q c) = (x, c')" "http_parse e (feed q d) = (x, d')" "sim c' d'"
      by (rule observe_pairs)
    from http_parse_recv_ok [OF a(2) h(1)] have "recv_ok (BUFSIZE e) (cin c')" .
    from Cons.IH [OF this h(3), of x] True h show ?thesis
      by (simp add: on_readable_def)
  qed
qed

subsection \<open>On a proper prefix of a well-formed request the parser waits\<close>

lemma strchr_append_notin:
  "x \<notin> set a \<Longrightarrow> strchr (a @ b) x = map_option (\<lambda>k. length a + k) (strchr b x)"
proof (induction a)
  case Nil
  show ?case by (cases "strchr b x") simp_all
next
  case (Cons y a)
  then show ?case by (cases "strchr b x") auto
qed

lemma unread_advance:
  assumes "0 \<le> pos bp" "0 \<le> j"
  shows "unread (bp\<lparr>pos := pos bp + j\<rparr>) = drop (nat j) (unread bp)"
proof -
  have "nat (pos bp + j) = nat j + nat (pos bp)" using assms by simp
  moreover have "nat (datasize bp - (pos bp + j)) = nat (datasize bp - pos bp) - nat j"
    using assms by simp
  ultimately show ?thesis by (simp add: unread_def drop_take)
qed

lemma cstr_id: "CHR 0x00 \<notin> set l \<Longrightarrow> cstr l = l"
  by (auto simp: cstr_def takeWhile_eq_all_conv)

lemma readline_partial:
  assumes "CHR 0x0A \<notin> set (unread (cin c))" "length (unread (cin c)) < m"
  shows "client_readline m c = (0, [], c)"
  using assms by (simp add: client_readline_def Let_def strchr_None [symmetric])

lemma readline_line:
  assumes p: "0 \<le> pos (cin c)" and u: "unread (cin c) = l @ CRLF @ rest"
    and l: "CHR 0x0A \<notin> set l" "CHR 0x00 \<notin> set l" "length l + 1 < m"
  obtains c' where "client_readline m c = (int (length l) + 2, l, c')"
    "unread (cin c') = rest" "req c' = req c" "0 \<le> pos (cin c')"
proof -
  have s: "strchr (unread (cin c)) (CHR 0x0A) = Some (length l + 1)"
    unfolding u by (simp add: strchr_append_notin [OF l(1)] CRLF_def)
  have t: "take (length l + 1) (unread (cin c)) = l @ [CHR 0x0D]"
    unfolding u by (simp add: CRLF_def)
  have "chomp (l @ [CHR 0x0D]) = l" by (simp add: chomp_def)
  then have line: "cstr (chomp (take (length l + 1) (unread (cin c)))) = l"
    unfolding t using l(2) by (simp add: cstr_id)
  let ?c' = "c\<lparr>cin := (cin c)\<lparr>pos := pos (cin c) + (int (length l) + 2)\<rparr>\<rparr>"
  have "client_readline m c = (int (length l) + 2, l, ?c')"
    using s l(3) line by (simp add: client_readline_def Let_def add.assoc)
  moreover have "unread (cin ?c') = rest"
    using unread_advance [OF p, of "int (length l) + 2"] u
    by (simp add: CRLF_def nat_add_distrib)
  ultimately show ?thesis using p by (intro that [of ?c']) simp_all
qed

lemma partial_line:
  assumes "l @ CRLF = p @ t" "t \<noteq> []" "CHR 0x0A \<notin> set l"
  shows "CHR 0x0A \<notin> set p \<and> length p \<le> length l + 1"
proof -
  from assms(2) obtain t' y where t: "t = t' @ [y]" by (metis rev_exhaust)
  with assms(1) have "l @ [CHR 0x0D] = p @ t'" by (simp add: CRLF_def flip: append_assoc)
  then have "set p \<subseteq> set (l @ [CHR 0x0D])" "length p \<le> length (l @ [CHR 0x0D])"
    by (metis Un_upper1 set_append, metis le_add1 length_append)
  with assms(3) show ?thesis by auto
qed

lemma split_line:
  assumes "a @ b = p @ s"
  obtains (inside) t where "a = p @ t" "t \<noteq> []"
    | (past) p' where "p = a @ p'" "b = p' @ s"
  using assms by (auto simp: append_eq_append_conv2) (metis append_Nil2)

lemma length_unread: "buf_ok bp \<Longrightarrow> int (length (unread bp)) = datasize bp - pos bp"
  by (auto simp: buf_ok_def unread_def)

lemma header_end_post:
  assumes "map lower (method r) = ''post''" "get_request_header r ''Content-Length'' = Some v"
    "v \<noteq> []" "list_all isdigit v"
  shows "header_end e c r ret = Inr (c\<lparr>req := Some (r\<lparr>content_len := atoi v\<rparr>)\<rparr>)"
proof -
  from assms(1) have p: "strcicmp (method r) ''POST'' = 0"
    unfolding strcicmp_def lower_lits by simp
  from not_post_get [OF p] p assms(2-4) show ?thesis
    by (simp add: header_end_def list_all_iff)
qed

lemma read_body_short:
  assumes "req c = Some r" "buf_ok (cin c)" "int (length (unread (cin c))) < content_len r"
  shows "read_body c = (0, c)"
  using assms by (simp add: read_body_def length_unread)

lemma length_known_no_sentinel:
  assumes "length_known r hs bd" "req d = Some r"
  shows "no_sentinel d"
proof -
  have "atoi v \<noteq> -1"
    if "map lower (method r) = ''post''" "map_of (headers r) ''Content-Length'' = Some v" for v
  proof -
    from that(2) have "(''Content-Length'', v) \<in> set (headers r)" by (rule map_of_SomeD)
    with assms(1) that(1) have "length_ok v bd" by (simp add: length_known_def)
    then show ?thesis by (simp add: length_ok_def)
  qed
  then show ?thesis using assms(2) by (auto simp: no_sentinel_def split: option.splits)
qed

lemma length_known_Nil:
  assumes "length_known r [] bd" "map lower (method r) = ''post''"
  obtains v where "get_request_header r ''Content-Length'' = Some v" "v \<noteq> []"
    "list_all isdigit v" "atoi v = int (length bd)"
proof -
  from assms have "''Content-Length'' \<in> fst ` set (headers r)" by (simp add: length_known_def)
  then obtain v where v: "map_of (headers r) ''Content-Length'' = Some v"
    by (metis map_of_eq_None_iff not_Some_eq)
  then have "(''Content-Length'', v) \<in> set (headers r)" by (rule map_of_SomeD)
  with assms have "v \<noteq> []" "length_ok v bd" by (simp_all add: length_known_def)
  with v show ?thesis by (intro that [of v]) (simp_all add: length_ok_def)
qed

lemma length_known_Cons:
  assumes "length_known r (h # hs) bd" "header_val h \<noteq> []"
  shows "length_known (r\<lparr>headers := (header_key h, header_val h) # headers r\<rparr>) hs bd"
proof (cases "map lower (method r) = ''post''")
  case False
  with assms show ?thesis by (simp add: length_known_def)
next
  case True
  with assms(1) have a: "''Content-Length'' \<in> fst ` set (headers r) \<or>
      header_key h = ''Content-Length'' \<or> list_ex (\<lambda>l. header_key l = ''Content-Length'') hs"
    and b: "\<forall>v. (''Content-Length'', v) \<in> set (headers r) \<longrightarrow> v \<noteq> [] \<and> length_ok v bd"
    and c: "header_key h = ''Content-Length'' \<longrightarrow> length_ok (header_val h) bd"
    and d: "list_all (\<lambda>l. header_key l = ''Content-Length'' \<longrightarrow> length_ok (header_val l) bd) hs"
    by (simp_all add: length_known_def)
  from a have "''Content-Length'' \<in> fst ` set ((header_key h, header_val h) # headers r) \<or>
      list_ex (\<lambda>l. header_key l = ''Content-Length'') hs"
    by auto
  moreover from b c assms(2)
  have "\<forall>v. (''Content-Length'', v) \<in> set ((header_key h, header_val h) # headers r) \<longrightarrow>
      v \<noteq> [] \<and> length_ok v bd"
    by auto
  ultimately show ?thesis using True d by (simp add: length_known_def)
qed

lemma headers_wait:
  assumes "list_all (\<lambda>h. line_ok e h \<and> header_ok h) hs"
    and "req d = Some r" "content_len r = -1" "buf_ok (cin d)" "unread (cin d) = p"
    and "concat (map (\<lambda>h. h @ CRLF) hs) @ CRLF @ bd = p @ s" "s \<noteq> []"
    and "2 < MAXBUF e" "length_known r hs bd"
  shows "\<exists>d'. parse_rest e d ret = (0, d') \<and> req d' \<noteq> None \<and> no_sentinel d'"
  using assms
proof (induction hs arbitrary: d r p ret)
  case Nil
  from Nil.prems(6) have "CRLF @ bd = p @ s" by simp
  then show ?case
  proof (cases rule: split_line)
    case (inside t)
    from partial_line [of "[]" p t] inside
    have "CHR 0x0A \<notin> set p" "length p \<le> 1" by simp_all
    with Nil.prems(8) have "client_readline (MAXBUF e) d = (0, [], d)"
      by (intro readline_partial) (simp_all add: Nil.prems(5))
    from parse_rest_not_ready [OF Nil.prems(2,3) this] Nil.prems(2)
      length_known_no_sentinel [OF Nil.prems(9,2)] show ?thesis by simp
  next
    case (past p')
    from Nil.prems(4) have pos: "0 \<le> pos (cin d)" by (simp add: buf_ok_def)
    from past(1) have u: "unread (cin d) = [] @ CRLF @ p'" by (simp add: Nil.prems(5))
    from Nil.prems(8) have m: "length ([]::string) + 1 < MAXBUF e" by simp
    obtain d' where rl: "client_readline (MAXBUF e) d = (int (length ([]::string)) + 2, [], d')"
      and d': "unread (cin d') = p'" "req d' = req d"
      using readline_line [OF pos u _ _ m] by auto
    from readline_buf_ok [OF Nil.prems(4) rl] have ok': "buf_ok (cin d')" by simp
    from past(2) Nil.prems(7) have bd: "length p' < length bd" "bd \<noteq> []" by auto
    with Nil.prems(9) have post: "map lower (method r) = ''post''"
      by (auto simp: length_known_def split: if_splits)
    from length_known_Nil [OF Nil.prems(9) post] obtain v where
      v: "get_request_header r ''Content-Length'' = Some v" "v \<noteq> []" "list_all isdigit v"
        "atoi v = int (length bd)"
      by blast
    let ?d2 = "d'\<lparr>req := Some (r\<lparr>content_len := atoi v\<rparr>)\<rparr>"
    have "parse_rest e d ret = read_body ?d2"
      using parse_rest_blank [OF Nil.prems(2,3) rl, of ret]
        header_end_post [OF post v(1-3), of e d' ret] by simp
    moreover have "read_body ?d2 = (0, ?d2)"
      using ok' d'(1) bd(1) v(4) by (intro read_body_short [of _ "r\<lparr>content_len := atoi v\<rparr>"]) simp_all
    moreover have "no_sentinel ?d2" using v(4) by (simp add: no_sentinel_def)
    ultimately show ?thesis by simp
  qed
next
  case (Cons h hs)
  from Cons.prems(1) have h: "h \<noteq> []" "CHR 0x0A \<notin> set h" "CHR 0x00 \<notin> set h"
    "length h + 1 < MAXBUF e" "header_ok h"
    and hs: "list_all (\<lambda>h. line_ok e h \<and> header_ok h) hs"
    by (simp_all add: line_ok_def)
  from Cons.prems(6)
  have "(h @ CRLF) @ (concat (map (\<lambda>h. h @ CRLF) hs) @ CRLF @ bd) = p @ s" by simp
  then show ?case
  proof (cases rule: split_line)
    case (inside t)
    from partial_line [OF inside h(2)] h(4)
    have "CHR 0x0A \<notin> set p" "length p < MAXBUF e" by simp_all
    then have "client_readline (MAXBUF e) d = (0, [], d)"
      by (intro readline_partial) (simp_all add: Cons.prems(5))
    from parse_rest_not_ready [OF Cons.prems(2,3) this] Cons.prems(2)
      length_known_no_sentinel [OF Cons.prems(9,2)] show ?thesis by simp
  next
    case (past p')
    from Cons.prems(4) have pos: "0 \<le> pos (cin d)" by (simp add: buf_ok_def)
    from past(1) have u: "unread (cin d) = h @ CRLF @ p'" by (simp add: Cons.prems(5))
    obtain d' where rl: "client_readline (MAXBUF e) d = (int (length h) + 2, h, d')"
      and d': "unread (cin d') = p'" "req d' = req d"
      using readline_line [OF pos u h(2,3,4)] by auto
    from readline_buf_ok [OF Cons.prems(4) rl] have ok': "buf_ok (cin d')" by simp
    let ?r' = "r\<lparr>headers := (header_key h, header_val h) # headers r\<rparr>"
    from h(5) have ph: "parse_header r h = (0, ?r')"
      by (auto simp: parse_header_eq [of r h] header_ok_def header_key_def header_val_def trim_def)
    have n: "0 < int (length h) + 2" "(0::int) \<noteq> -1" by simp_all
    have step: "parse_rest e d ret = parse_rest e (d'\<lparr>req := Some ?r'\<rparr>) 0"
      by (rule parse_rest_header [OF Cons.prems(2,3) rl n(1) h(1) ph n(2)])
    from h(5) have "header_val h \<noteq> []" by (simp add: header_ok_def)
    with Cons.prems(9) have lk: "length_known ?r' hs bd" by (rule length_known_Cons)
    have "\<exists>d''. parse_rest e (d'\<lparr>req := Some ?r'\<rparr>) 0 = (0, d'') \<and> req d'' \<noteq> None \<and>
        no_sentinel d''"
    proof (rule Cons.IH [OF hs _ _ _ _ past(2) Cons.prems(7,8) lk])
      show "req (d'\<lparr>req := Some ?r'\<rparr>) = Some ?r'" by simp
      show "content_len ?r' = -1" using Cons.prems(3) by simp
      show "buf_ok (cin (d'\<lparr>req := Some ?r'\<rparr>))" using ok' by simp
      show "unread (cin (d'\<lparr>req := Some ?r'\<rparr>)) = p'" using d'(1) by simp
    qed
    with step show ?thesis by simp
  qed
qed

lemma body_ok_length_known:
  assumes "body_ok m hs bd" "method r = m" "headers r = []"
  shows "length_known r hs bd"
  using assms by (simp add: body_ok_def length_known_def)

lemma prefix_awaits:
  assumes wf: "well_formed e rl hs bd"
    and c: "req c = None" "buf_ok (cin c)" "unread (cin c) = p"
    and sp: "wire rl hs bd = p @ s" "s \<noteq> []"
  shows "awaits e c"
proof -
  from wf have rl: "rl \<noteq> []" "CHR 0x0A \<notin> set rl" "CHR 0x00 \<notin> set rl" "length rl + 1 < MAXBUF e"
    and rq: "\<not> length (tokens rl) < 3" "allowed_method (tokens rl ! 0)"
      "map lower (tokens rl ! 2) = map lower (http_version e)"
    and hs: "list_all (\<lambda>h. line_ok e h \<and> header_ok h) hs"
    and bd: "body_ok (tokens rl ! 0) hs bd"
    by (simp_all add: well_formed_def line_ok_def request_line_ok_def)
  from sp(1)
  have "(rl @ CRLF) @ (concat (map (\<lambda>h. h @ CRLF) hs) @ CRLF @ bd) = p @ s"
    by (simp add: wire_def)
  then show ?thesis
  proof (cases rule: split_line)
    case (inside t)
    from partial_line [OF inside rl(2)] rl(4)
    have "CHR 0x0A \<notin> set p" "length p < MAXBUF e" by simp_all
    then have "client_readline (MAXBUF e) c = (0, [], c)"
      by (intro readline_partial) (simp_all add: c(3))
    from http_parse_None(1) [OF c(1) this] c(1) show ?thesis
      by (simp add: awaits_def no_sentinel_def)
  next
    case (past p')
    from c(2) have pos: "0 \<le> pos (cin c)" by (simp add: buf_ok_def)
    from past(1) have u: "unread (cin c) = rl @ CRLF @ p'" by (simp add: c(3))
    obtain c' where r: "client_readline (MAXBUF e) c = (int (length rl) + 2, rl, c')"
      and c': "unread (cin c') = p'" "req c' = req c"
      using readline_line [OF pos u rl(2,3,4)] by auto
    from readline_buf_ok [OF c(2) r] have ok': "buf_ok (cin c')" by simp
    let ?r = "(new_request\<lparr>content_len := -1\<rparr>)\<lparr>method := tokens rl ! 0, uri := tokens rl ! 1\<rparr>"
    have prl: "parse_request_line (http_version e) (new_request\<lparr>content_len := -1\<rparr>) rl = (0, ?r)"
      using prl_long [OF rq(1), of "http_version e" "new_request\<lparr>content_len := -1\<rparr>"] rq(2,3)
      by simp
    have n: "0 < int (length rl) + 2" "\<not> (0::int) < 0" by simp_all
    have hp: "http_parse e c = parse_rest e (c'\<lparr>req := Some ?r\<rparr>) 0"
      by (rule http_parse_None(4) [OF c(1) r rl(1) n(1) prl n(2)])
    have lk: "length_known ?r hs bd"
      by (rule body_ok_length_known [OF bd]) (simp_all add: new_request_def)
    from rl(4) have m: "2 < MAXBUF e" using rl(1) by (cases rl) simp_all
    have "\<exists>d'. parse_rest e (c'\<lparr>req := Some ?r\<rparr>) 0 = (0, d') \<and> req d' \<noteq> None \<and>
        no_sentinel d'"
    proof (rule headers_wait [OF hs _ _ _ _ past(2) sp(2) m lk])
      show "req (c'\<lparr>req := Some ?r\<rparr>) = Some ?r" by simp
      show "content_len ?r = -1" by simp
      show "buf_ok (cin (c'\<lparr>req := Some ?r\<rparr>))" using ok' by simp
      show "unread (cin (c'\<lparr>req := Some ?r\<rparr>)) = p'" using c'(1) by simp
    qed
    with hp show ?thesis by (auto simp: awaits_def)
  qed
qed

subsection \<open>Fragments\<close>

lemma new_client_ok:
  "req (new_client e) = None" "buf_ok (cin (new_client e))" "unread (cin (new_client e)) = []"
  "4 \<le> BUFSIZE e \<Longrightarrow> recv_ok (BUFSIZE e) (cin (new_client e))"
  by (simp_all add: new_client_def init_buf_def buf_ok_def unread_def recv_ok_def)

lemma run_one_shot:
  assumes wf: "well_formed e rl hs bd" and c: "req c = None" "buf_ok (cin c)" "unread (cin c) = []"
      "recv_ok (BUFSIZE e) (cin c)"
    and fs: "wire rl hs bd = concat fs @ s" "fs \<noteq> []" "list_all (\<lambda>f. f \<noteq> []) fs"
  shows "observe (run e fs (0, c)) = observe (http_parse e (feed (concat fs) c))"
proof -
  have f: "\<forall>f \<in> set fs. f \<noteq> []" using fs(3) by (simp add: list_all_iff)
  have w: "\<forall>p t. concat fs = p @ t \<longrightarrow> p \<noteq> [] \<longrightarrow> t \<noteq> [] \<longrightarrow> awaits e (feed p c)"
  proof (intro allI impI)
    fix p t :: string
    assume a: "concat fs = p @ t" "t \<noteq> []"
    then have t: "t @ s \<noteq> []" by simp
    show "awaits e (feed p c)"
    proof (rule prefix_awaits [OF wf _ _ _ _ t])
      show "req (feed p c) = None" using c(1) by simp
      show "buf_ok (cin (feed p c))" using c(2) by (rule buf_ok_feed)
      show "unread (cin (feed p c)) = p" using c(3) by (simp add: unread_feed [OF c(2)])
      show "wire rl hs bd = p @ t @ s" using a(1) fs(1) by simp
    qed
  qed
  have "sim c c" by (simp add: sim_def)
  from run_feed_run [OF c(4) this, of fs 0]
  have "observe (run e fs (0, c)) = observe (feed_run e fs (0, c))" .
  also have "feed_run e fs (0, c) = http_parse e (feed (concat fs) c)"
    by (rule feed_run_one_shot [OF c(2,1) fs(2) f w])
  finally show ?thesis .
qed

text \<open>
  Fragmentation-invariance, where \<open>atoi\<close> reads the length of the body right.
  Take a well-formed request: a request line and header lines that the line
  parsers accept, each ended by \<open>CRLF\<close> and short enough for \<open>client_readline\<close>,
  an empty line, and a body whose length is what \<open>atoi\<close> makes of every
  \<open>Content-Length\<close> header (\<open>POST\<close>) or no body (\<open>GET\<close>, \<open>HEAD\<close>). On a fresh
  connection, let its bytes arrive split in any way into non-empty fragments
  \<open>fs\<close>, each received by \<open>io_recv\<close> and followed by one call of \<open>http_parse\<close>. The
  run ends as the run in which the same bytes arrive at once: the same return
  value, the same bytes received and the same cursors, the same request in the
  request slot, the same response written by the handler that was dispatched,
  the same pipe, status and closed descriptors. This holds for the whole request
  (\<open>s = []\<close>) and at every point before (\<open>s\<close> is the part still to come).
\<close>

lemma fragmentation_invariance:
  assumes "well_formed e rl hs bd" "4 \<le> BUFSIZE e"
    and "wire rl hs bd = concat fs @ s" "fs \<noteq> []" "list_all (\<lambda>f. f \<noteq> []) fs"
  shows "observe (run e fs (0, new_client e)) = observe (run e [concat fs] (0, new_client e))"
proof -
  note c = new_client_ok(1-3) [of e] new_client_ok(4) [OF assms(2)]
  from assms(4,5) have ne: "concat fs \<noteq> []" by (cases fs) simp_all
  then have o: "wire rl hs bd = concat [concat fs] @ s" "[concat fs] \<noteq> []"
    "list_all (\<lambda>f. f \<noteq> []) [concat fs]"
    using assms(3) by simp_all
  from run_one_shot [OF assms(1) c assms(3,4,5)] run_one_shot [OF assms(1) c o]
  show ?thesis by simp
qed

lemma fragmentation_invariance_example:
  "well_formed env0 ''POST /cgi HTTP/1.1'' [''Host: a'', ''Content-Length: 3''] ''abc'' \<and>
   observe (run env0
     [''POST /c'', ''gi HTTP/1.1'' @ [CHR 0x0D], [CHR 0x0A] @ ''Host: a'' @ CRLF @ ''Content-Len'',
      ''gth: 3'' @ CRLF @ CRLF @ ''a'', ''bc''] (0, new_client env0))
   = observe (run env0
       [wire ''POST /cgi HTTP/1.1'' [''Host: a'', ''Content-Length: 3''] ''abc'']
       (0, new_client env0)) \<and>
   observe (run env0
       [wire ''POST /cgi HTTP/1.1'' [''Host: a'', ''Content-Length: 3''] ''abc'']
       (0, new_client env0))
   = (-1, (wire ''POST /cgi HTTP/1.1'' [''Host: a'', ''Content-Length: 3''] ''abc'', 53, 53),
      None, [StatusLine 501], None, C_IDLE, [])"
proof -
  have wf: "well_formed env0 ''POST /cgi HTTP/1.1'' [''Host: a'', ''Content-Length: 3''] ''abc''"
    by code_simp
  have b: "4 \<le> BUFSIZE env0" by (simp add: env0_def)
  have c: "concat [''POST /c'', ''gi HTTP/1.1'' @ [CHR 0x0D],
        [CHR 0x0A] @ ''Host: a'' @ CRLF @ ''Content-Len'', ''gth: 3'' @ CRLF @ CRLF @ ''a'', ''bc'']
      = wire ''POST /cgi HTTP/1.1'' [''Host: a'', ''Content-Length: 3''] ''abc''"
    by (simp add: wire_def CRLF_def)
  then have c': "wire ''POST /cgi HTTP/1.1'' [''Host: a'', ''Content-Length: 3''] ''abc''
      = concat [''POST /c'', ''gi HTTP/1.1'' @ [CHR 0x0D],
        [CHR 0x0A] @ ''Host: a'' @ CRLF @ ''Content-Len'', ''gth: 3'' @ CRLF @ CRLF @ ''a'', ''bc''] @ []"
    by simp
  have n: "[''POST /c'', ''gi HTTP/1.1'' @ [CHR 0x0D],
        [CHR 0x0A] @ ''Host: a'' @ CRLF @ ''Content-Len'', ''gth: 3'' @ CRLF @ CRLF @ ''a'', ''bc''] \<noteq> []"
    "list_all (\<lambda>f. f \<noteq> []) [''POST /c'', ''gi HTTP/1.1'' @ [CHR 0x0D],
        [CHR 0x0A] @ ''Host: a'' @ CRLF @ ''Content-Len'', ''gth: 3'' @ CRLF @ CRLF @ ''a'', ''bc'']"
    by simp_all
  have v: "observe (run env0
       [wire ''POST /cgi HTTP/1.1'' [''Host: a'', ''Content-Length: 3''] ''abc'']
       (0, new_client env0))
   = (-1, (wire ''POST /cgi HTTP/1.1'' [''Host: a'', ''Content-Length: 3''] ''abc'', 53, 53),
      None, [StatusLine 501], None, C_IDLE, [])"
    by code_simp
  from fragmentation_invariance [OF wf b c' n] wf v show ?thesis unfolding c by simp
qed

subsection \<open>A length that \<open>atoi\<close> reads as the mark of open headers\<close>

lemma atoi_sentinel: "atoi ''4294967295'' = -1" "atoi ''4294967299'' = 3"
  by code_simp+


section \<open>The body of a \<open>POST\<close> request\<close>

text \<open>
  With a request whose \<open>content_len\<close> is positive, \<open>http_parse\<close> waits while fewer
  bytes are unread, and otherwise moves the cursor past the body, calls
  \<open>handle_post\<close> and ends the request with 501. With \<open>content_len = 0\<close> it returns
  0 and changes nothing, whatever the buffer holds.
\<close>

lemma post_zero_stuck:
  "req c = Some r \<Longrightarrow> content_len r = 0 \<Longrightarrow> http_parse e c = (0, c)"
  by (simp add: http_parse_Some parse_rest_body read_body_def)

lemma post_body_wait:
  "req c = Some r \<Longrightarrow> 0 < content_len r \<Longrightarrow>
   datasize (cin c) - pos (cin c) < content_len r \<Longrightarrow> http_parse e c = (0, c)"
  by (simp add: http_parse_Some parse_rest_body read_body_def)

lemma post_body_dispatch:
  "req c = Some r \<Longrightarrow> 0 < content_len r \<Longrightarrow>
   content_len r \<le> datasize (cin c) - pos (cin c) \<Longrightarrow>
   http_parse e c =
     (-1, c\<lparr>cin := (cin c)\<lparr>pos := pos (cin c) + content_len r\<rparr>, req := None,
          out := out c @ [StatusLine NOT_IMPLEMENTED]\<rparr>)"
  by (simp add: http_parse_Some parse_rest_body read_body_def Let_def handle_post_def finish_def
      NOT_IMPLEMENTED_def end_request_def deinit_request_def)

text \<open>
  C5, at a \<open>POST\<close> request with \<open>Content-Length: 0\<close>: once the headers are read,
  \<open>content_len\<close> is 0 and 0 unread bytes are at least that many, yet \<open>http_parse\<close>
  returns 0 with the request still in place and nothing written: the \<open>POST\<close>
  handler is not dispatched, neither by this call nor when more bytes arrive.
\<close>

theorem post_content_length_zero_not_dispatched:
  "observe (run env0 [wire ''POST /cgi HTTP/1.1'' [''Content-Length: 0''] []]
      (0, new_client env0))
   = (0, (wire ''POST /cgi HTTP/1.1'' [''Content-Length: 0''] [], 41, 41),
      Some \<lparr>method = ''POST'', uri = ''/cgi'', headers = [(''Content-Length'', ''0'')],
            content_len = 0, body = None\<rparr>,
      [], None, C_IDLE, []) \<and>
   observe (run env0 [wire ''POST /cgi HTTP/1.1'' [''Content-Length: 0''] [], ''more'']
      (0, new_client env0))
   = (0, (wire ''POST /cgi HTTP/1.1'' [''Content-Length: 0''] [] @ ''more'', 45, 41),
      Some \<lparr>method = ''POST'', uri = ''/cgi'', headers = [(''Content-Length'', ''0'')],
            content_len = 0, body = None\<rparr>,
      [], None, C_IDLE, [])"
  by code_simp

end
